theory Spec2Isabelle
  imports Main "HOL-Library.Word" "HOL-Library.Sublist"
begin

section \<open>Values of the host platform\<close>

text \<open>
  A JavaScript string is a sequence of 16-bit code units. \<open>str\<close> writes a literal of the
  source (all of them are ASCII) as such a sequence.
\<close>

type_synonym jsstring = "16 word list"

definition str :: "string \<Rightarrow> jsstring" where
  "str s = map of_char s"

section \<open>Promises, blobs and the URL store\<close>

text \<open>
  The settlement of a promise of the platform: it fulfils with a value, rejects with an
  error, or stays pending for ever (the platform imposes no timeout).
\<close>

datatype error = Error string

datatype 'a promise = Fulfils 'a | Rejects error | Hangs

text \<open>
  A \<open>Blob\<close> or \<open>File\<close> of the platform, as far as the code reads it: \<open>name\<close> (which a
  plain \<open>Blob\<close> does not have: reading it gives \<open>undefined\<close>), \<open>size\<close>, \<open>type\<close> and the
  settlement of \<open>text()\<close>.
\<close>

record blob =
  blob_name :: "jsstring option"
  blob_size :: nat
  blob_type :: jsstring
  blob_text :: "jsstring promise"

text \<open>
  The blob URL store of the page: \<open>URL.createObjectURL\<close> registers the object and returns a
  fresh URL, modelled as the index of the new entry. Nothing in the code revokes a URL.
\<close>

type_synonym url_store = "blob list"

definition createObjectURL :: "blob \<Rightarrow> url_store \<Rightarrow> nat \<times> url_store" where
  "createObjectURL b st = (length st, st @ [b])"

section \<open>The platform\<close>

text \<open>
  What the platform does when asked: \<open>document.execCommand('copy')\<close> returns \<open>true\<close>,
  returns \<open>false\<close> (the command is unsupported or disabled) or throws;
  \<open>navigator.clipboard\<close> may be absent, and so may each of its methods; a method that is
  present returns a promise. \<open>ClipboardItem_defined\<close> says whether the global
  \<open>ClipboardItem\<close> exists: it does not in an insecure context, nor on an older engine.
\<close>

datatype exec = ExecTrue | ExecFalse | ExecThrows error

record clipboard_api =
  clipboard_write :: "unit promise option"
  clipboard_writeText :: "unit promise option"

record env =
  execCommand :: exec
  navigator_clipboard :: "clipboard_api option"
  ClipboardItem_defined :: bool

section \<open>The data model of \<open>clipboardUtils\<close>\<close>

record FileInfo =
  fi_name :: "jsstring option"
  fi_size :: nat
  fi_type :: jsstring
  fi_url :: nat

datatype payload = Text jsstring | File FileInfo

record ClipboardTypeData =
  ctd_type :: jsstring
  ctd_data :: payload

record ClipboardItemData =
  cid_kind :: jsstring
  cid_type :: jsstring
  as_file :: "FileInfo option"

text \<open>An optional, nullable field of an object: left out, \<open>null\<close>, or set.\<close>

datatype 'a field = Absent | Null | Present 'a

datatype shape = DataTransfer | ClipboardItem

record ExtractedData =
  ed_type :: shape
  types :: "ClipboardTypeData list field"
  items :: "ClipboardItemData list field"
  files :: "FileInfo list field"

section \<open>The inputs of \<open>extractData\<close>\<close>

record transfer_item =
  ti_kind :: jsstring
  ti_type :: jsstring
  getAsFile :: "blob option"

record data_transfer =
  dt_types :: "jsstring list"
  getData :: "jsstring \<Rightarrow> jsstring"
  dt_items :: "transfer_item list option"
  dt_files :: "blob list option"

record clipboard_item =
  ci_types :: "jsstring list"
  getType :: "jsstring \<Rightarrow> blob promise"

text \<open>
  The parameter of \<open>extractData\<close> has type \<open>any\<close>: the two recognised classes, the
  primitive values, and any other object.
\<close>

datatype raw =
    Undefined
  | NullValue
  | Boolean bool
  | Number int
  | String jsstring
  | Transfer data_transfer
  | Item clipboard_item
  | OtherObject

fun truthy :: "raw \<Rightarrow> bool" where
  "truthy Undefined = False"
| "truthy NullValue = False"
| "truthy (Boolean b) = b"
| "truthy (Number n) = (n \<noteq> 0)"
| "truthy (String s) = (s \<noteq> [])"
| "truthy (Transfer d) = True"
| "truthy (Item c) = True"
| "truthy OtherObject = True"

section \<open>\<open>createFileInfo\<close>\<close>

text \<open>
  \<open>file_info\<close> is the function past its null check, on an object; \<open>createFileInfo\<close>
  is the whole of it (\<open>None\<close> is \<open>null\<close>).
\<close>

definition file_info :: "blob \<Rightarrow> url_store \<Rightarrow> FileInfo \<times> url_store" where
  "file_info file st =
     (let (u, st') = createObjectURL file st
      in (\<lparr>fi_name = blob_name file, fi_size = blob_size file,
           fi_type = blob_type file, fi_url = u\<rparr>, st'))"

definition createFileInfo :: "blob option \<Rightarrow> url_store \<Rightarrow> FileInfo option \<times> url_store" where
  "createFileInfo file st =
     (case file of
        None \<Rightarrow> (None, st)
      | Some f \<Rightarrow> (let (i, st') = file_info f st in (Some i, st')))"

section \<open>\<open>extractData\<close>\<close>

subsection \<open>The branch of a \<open>DataTransfer\<close>\<close>

fun extract_items :: "transfer_item list \<Rightarrow> url_store \<Rightarrow> ClipboardItemData list \<times> url_store" where
  "extract_items [] st = ([], st)"
| "extract_items (item # rest) st =
     (let (f, st1) = createFileInfo (getAsFile item) st;
          (out, st2) = extract_items rest st1
      in (\<lparr>cid_kind = ti_kind item, cid_type = ti_type item, as_file = f\<rparr> # out, st2))"

text \<open>An entry of \<open>data.files\<close> is a \<open>File\<close> object, never \<open>null\<close>.\<close>

fun extract_files :: "blob list \<Rightarrow> url_store \<Rightarrow> FileInfo list \<times> url_store" where
  "extract_files [] st = ([], st)"
| "extract_files (file # rest) st =
     (let (i, st1) = file_info file st;
          (out, st2) = extract_files rest st1
      in (i # out, st2))"

definition extract_transfer :: "data_transfer \<Rightarrow> url_store \<Rightarrow> ExtractedData \<times> url_store" where
  "extract_transfer d st =
     (let ts = map (\<lambda>t. \<lparr>ctd_type = t, ctd_data = Text (getData d t)\<rparr>) (dt_types d);
          (is, st1) = (case dt_items d of
                         Some l \<Rightarrow> (let (out, s) = extract_items l st in (Present out, s))
                       | None \<Rightarrow> (Null, st));
          (fs, st2) = (case dt_files d of
                         Some l \<Rightarrow> (let (out, s) = extract_files l st1 in (Present out, s))
                       | None \<Rightarrow> (Null, st1))
      in (\<lparr>ed_type = DataTransfer, types = Present ts, items = is, files = fs\<rparr>, st2))"

subsection \<open>The branch of a \<open>ClipboardItem\<close>\<close>

text \<open>
  The asynchronous callback mapped over the advertised types. \<open>blob_content\<close> is its
  body after \<open>getType\<close> has given the blob: the text of a blob whose type starts with
  \<open>text/\<close>, awaited, or else a \<open>FileInfo\<close> of the blob (an object, never \<open>null\<close>).
  The promise of the callback settles once; the store changes only when a \<open>FileInfo\<close>
  is built.
\<close>

definition blob_content :: "blob \<Rightarrow> url_store \<Rightarrow> payload promise \<times> url_store" where
  "blob_content b st =
     (if prefix (str ''text/'') (blob_type b)
      then (case blob_text b of
              Fulfils s \<Rightarrow> (Fulfils (Text s), st)
            | Rejects e \<Rightarrow> (Rejects e, st)
            | Hangs \<Rightarrow> (Hangs, st))
      else (let (i, st') = file_info b st in (Fulfils (File i), st')))"

definition fetch_type :: "clipboard_item \<Rightarrow> jsstring \<Rightarrow> url_store \<Rightarrow> ClipboardTypeData promise \<times> url_store" where
  "fetch_type c t st =
     (case getType c t of
        Rejects e \<Rightarrow> (Rejects e, st)
      | Hangs \<Rightarrow> (Hangs, st)
      | Fulfils b \<Rightarrow>
          (case blob_content b st of
             (Fulfils content, st') \<Rightarrow> (Fulfils \<lparr>ctd_type = t, ctd_data = content\<rparr>, st')
           | (Rejects e, st') \<Rightarrow> (Rejects e, st')
           | (Hangs, st') \<Rightarrow> (Hangs, st')))"

text \<open>
  \<open>Promise.all\<close> over the callbacks. The callbacks are started in the order of the types;
  \<open>sched\<close> is the order in which their promises settle (callback \<open>i\<close> is the one of the
  \<open>i\<close>-th type). A fulfilment is stored in the slot of its own index; the first rejection
  rejects the whole; the whole fulfils with the slots once every slot is filled, and
  stays pending if the settlements run out before that. An entry of \<open>sched\<close> that names
  no pending callback is skipped.
\<close>

fun promise_all :: "clipboard_item \<Rightarrow> nat list \<Rightarrow> ClipboardTypeData option list \<Rightarrow> url_store
    \<Rightarrow> ClipboardTypeData list promise \<times> url_store" where
  "promise_all c [] slots st =
     (if list_all (\<lambda>s. s \<noteq> None) slots then (Fulfils (map the slots), st) else (Hangs, st))"
| "promise_all c (i # sched) slots st =
     (if list_all (\<lambda>s. s \<noteq> None) slots then (Fulfils (map the slots), st)
      else if length slots \<le> i \<or> slots ! i \<noteq> None then promise_all c sched slots st
      else (case fetch_type c (ci_types c ! i) st of
              (Rejects e, st') \<Rightarrow> (Rejects e, st')
            | (Hangs, st') \<Rightarrow> promise_all c sched slots st'
            | (Fulfils v, st') \<Rightarrow> promise_all c sched (slots[i := Some v]) st'))"

definition extract_item :: "clipboard_item \<Rightarrow> nat list \<Rightarrow> url_store \<Rightarrow> ExtractedData promise \<times> url_store" where
  "extract_item c sched st =
     (case promise_all c sched (replicate (length (ci_types c)) None) st of
        (Fulfils ts, st') \<Rightarrow>
          (Fulfils \<lparr>ed_type = ClipboardItem, types = Present ts, items = Absent, files = Absent\<rparr>, st')
      | (Rejects e, st') \<Rightarrow> (Rejects e, st')
      | (Hangs, st') \<Rightarrow> (Hangs, st'))"

subsection \<open>The function\<close>

text \<open>
  The result is the settlement of the returned promise (\<open>None\<close> is \<open>undefined\<close>) and the
  blob URL store at that moment. \<open>sched\<close> is the settlement order of the sub-fetches and
  matters to the \<open>ClipboardItem\<close> branch only.

  The test \<open>data instanceof ClipboardItem\<close> reads the global \<open>ClipboardItem\<close>. Where the
  platform does not define it, reading it throws a \<open>ReferenceError\<close>, and the promise of
  the asynchronous function rejects: this is the fate of every truthy input that is not
  a \<open>DataTransfer\<close>. An instance of the class exists only on a platform that defines
  the class, so the test does not throw on one. \<open>DataTransfer\<close> is defined wherever
  there is a document.
\<close>

definition extractData ::
  "env \<Rightarrow> nat list \<Rightarrow> raw \<Rightarrow> url_store \<Rightarrow> ExtractedData option promise \<times> url_store" where
  "extractData ev sched data st =
     (if \<not> truthy data then (Fulfils None, st)
      else (case data of
              Transfer d \<Rightarrow> (let (e, st') = extract_transfer d st in (Fulfils (Some e), st'))
            | Item c \<Rightarrow>
                (case extract_item c sched st of
                   (Fulfils e, st') \<Rightarrow> (Fulfils (Some e), st')
                 | (Rejects x, st') \<Rightarrow> (Rejects x, st')
                 | (Hangs, st') \<Rightarrow> (Hangs, st'))
            | _ \<Rightarrow>
                (if ClipboardItem_defined ev then (Fulfils None, st)
                 else (Rejects (Error ''ReferenceError''), st))))"

section \<open>\<open>JSON.parse\<close> and \<open>JSON.stringify\<close> of the platform\<close>

text \<open>
  The two functions belong to the platform. They are modelled after their specification
  in ECMA-262 (section 25.5), down to the conversion between a number and its decimal
  text, which is floating-point arithmetic and stays a parameter: \<open>to_number\<close> is the
  value of a number token, \<open>num_text\<close> the text that \<open>JSON.stringify\<close> writes for a number
  (\<open>null\<close> for one that is not finite).
\<close>

datatype 'n json =
    JNull
  | JBool bool
  | JNumber 'n
  | JString jsstring
  | JArray "'n json list"
  | JObject "(jsstring \<times> 'n json) list"

record 'n numbers =
  to_number :: "jsstring \<Rightarrow> 'n"
  num_text :: "'n \<Rightarrow> jsstring"

subsection \<open>Code units\<close>

definition is_ws :: "16 word \<Rightarrow> bool" where
  "is_ws c = (c = 0x09 \<or> c = 0x0A \<or> c = 0x0D \<or> c = 0x20)"

definition skip_ws :: "jsstring \<Rightarrow> jsstring" where
  "skip_ws s = dropWhile is_ws s"

definition is_digit :: "16 word \<Rightarrow> bool" where
  "is_digit c = (0x30 \<le> c \<and> c \<le> 0x39)"

definition hex_value :: "16 word \<Rightarrow> nat option" where
  "hex_value c =
     (if 0x30 \<le> c \<and> c \<le> 0x39 then Some (unat c - 48)
      else if 0x41 \<le> c \<and> c \<le> 0x46 then Some (unat c - 55)
      else if 0x61 \<le> c \<and> c \<le> 0x66 then Some (unat c - 87)
      else None)"

definition hex4 :: "16 word \<Rightarrow> 16 word \<Rightarrow> 16 word \<Rightarrow> 16 word \<Rightarrow> 16 word option" where
  "hex4 a b c d =
     (case (hex_value a, hex_value b, hex_value c, hex_value d) of
        (Some w, Some x, Some y, Some z) \<Rightarrow> Some (of_nat (((w * 16 + x) * 16 + y) * 16 + z))
      | _ \<Rightarrow> None)"

text \<open>The single-character escapes: \<open>\"\<close>, \<open>\\\<close>, \<open>\/\<close>, \<open>\b\<close>, \<open>\f\<close>, \<open>\n\<close>, \<open>\r\<close>, \<open>\t\<close>.\<close>

definition unescape :: "16 word \<Rightarrow> 16 word option" where
  "unescape e =
     (if e = 0x22 then Some 0x22
      else if e = 0x5C then Some 0x5C
      else if e = 0x2F then Some 0x2F
      else if e = 0x62 then Some 0x08
      else if e = 0x66 then Some 0x0C
      else if e = 0x6E then Some 0x0A
      else if e = 0x72 then Some 0x0D
      else if e = 0x74 then Some 0x09
      else None)"

subsection \<open>Tokens\<close>

text \<open>
  The characters of a string literal after its opening quote, up to the closing quote:
  the value of the literal and the rest of the input.
\<close>

fun parse_chars :: "jsstring \<Rightarrow> (jsstring \<times> jsstring) option" where
  "parse_chars [] = None"
| "parse_chars (c # cs) =
     (if c = 0x22 then Some ([], cs)
      else if c = 0x5C then
        (case cs of
           [] \<Rightarrow> None
         | e # es \<Rightarrow>
             if e = 0x75 then
               (case es of
                  h1 # h2 # h3 # h4 # rest \<Rightarrow>
                    (case hex4 h1 h2 h3 h4 of
                       None \<Rightarrow> None
                     | Some u \<Rightarrow> map_option (\<lambda>(s, r). (u # s, r)) (parse_chars rest))
                | _ \<Rightarrow> None)
             else
               (case unescape e of
                  None \<Rightarrow> None
                | Some u \<Rightarrow> map_option (\<lambda>(s, r). (u # s, r)) (parse_chars es)))
      else if c < 0x20 then None
      else map_option (\<lambda>(s, r). (c # s, r)) (parse_chars cs))"

text \<open>
  A number token: an optional minus, an integer part without a leading zero, an optional
  fraction, an optional exponent. The result is the token and the rest of the input.
\<close>

definition lex_digits :: "jsstring \<Rightarrow> (jsstring \<times> jsstring) option" where
  "lex_digits s =
     (case takeWhile is_digit s of
        [] \<Rightarrow> None
      | d # ds \<Rightarrow> Some (d # ds, dropWhile is_digit s))"

definition lex_int :: "jsstring \<Rightarrow> (jsstring \<times> jsstring) option" where
  "lex_int s =
     (case s of
        [] \<Rightarrow> None
      | c # cs \<Rightarrow>
          if c = 0x30 then Some ([c], cs)
          else if is_digit c then Some (c # takeWhile is_digit cs, dropWhile is_digit cs)
          else None)"

definition lex_frac :: "jsstring \<Rightarrow> (jsstring \<times> jsstring) option" where
  "lex_frac s =
     (case s of
        [] \<Rightarrow> Some ([], s)
      | c # cs \<Rightarrow>
          if c = 0x2E then map_option (\<lambda>(ds, r). (c # ds, r)) (lex_digits cs)
          else Some ([], s))"

definition lex_exp :: "jsstring \<Rightarrow> (jsstring \<times> jsstring) option" where
  "lex_exp s =
     (case s of
        [] \<Rightarrow> Some ([], s)
      | c # cs \<Rightarrow>
          if c = 0x65 \<or> c = 0x45 then
            (case cs of
               [] \<Rightarrow> None
             | g # gs \<Rightarrow>
                 if g = 0x2B \<or> g = 0x2D then map_option (\<lambda>(ds, r). (c # g # ds, r)) (lex_digits gs)
                 else map_option (\<lambda>(ds, r). (c # ds, r)) (lex_digits cs))
          else Some ([], s))"

definition lex_number :: "jsstring \<Rightarrow> (jsstring \<times> jsstring) option" where
  "lex_number s =
     (let (sign, s0) = (case s of [] \<Rightarrow> ([], s) | c # cs \<Rightarrow> if c = 0x2D then ([c], cs) else ([], s))
      in case lex_int s0 of
           None \<Rightarrow> None
         | Some (i, s1) \<Rightarrow>
             (case lex_frac s1 of
                None \<Rightarrow> None
              | Some (f, s2) \<Rightarrow>
                  (case lex_exp s2 of
                     None \<Rightarrow> None
                   | Some (e, s3) \<Rightarrow> Some (sign @ i @ f @ e, s3))))"

subsection \<open>Objects\<close>

text \<open>
  An object is represented by its own properties in the order in which the platform
  enumerates them: the keys that are array indices first, in ascending numeric order, then
  the other keys in the order of their creation. An array index is the canonical decimal
  text of an integer below \<open>2^32 - 1\<close>.
\<close>

definition digit_value :: "jsstring \<Rightarrow> int" where
  "digit_value s = foldl (\<lambda>n c. 10 * n + (uint c - 48)) 0 s"

definition array_index :: "jsstring \<Rightarrow> int option" where
  "array_index k =
     (if k = [] \<or> \<not> list_all is_digit k then None
      else if hd k = 0x30 \<and> tl k \<noteq> [] then None
      else if digit_value k < 4294967295 then Some (digit_value k)
      else None)"

definition before_index :: "int \<Rightarrow> jsstring \<times> 'a \<Rightarrow> bool" where
  "before_index i p = (case array_index (fst p) of None \<Rightarrow> False | Some j \<Rightarrow> j \<le> i)"

text \<open>
  \<open>CreateDataProperty\<close>: a key that the object has keeps its place and takes the new
  value; a new key is created, and takes its place in the enumeration.
\<close>

definition define_property :: "jsstring \<Rightarrow> 'a \<Rightarrow> (jsstring \<times> 'a) list \<Rightarrow> (jsstring \<times> 'a) list" where
  "define_property k v ps =
     (if k \<in> set (map fst ps) then map (\<lambda>p. if fst p = k then (k, v) else p) ps
      else (case array_index k of
              None \<Rightarrow> ps @ [(k, v)]
            | Some i \<Rightarrow> takeWhile (before_index i) ps @ (k, v) # dropWhile (before_index i) ps))"

definition create_object :: "(jsstring \<times> 'a) list \<Rightarrow> (jsstring \<times> 'a) list" where
  "create_object members = foldl (\<lambda>ps m. define_property (fst m) (snd m) ps) [] members"

subsection \<open>The grammar\<close>

text \<open>
  A recursive-descent reading of the JSON grammar: a value at the head of the input, the
  elements of an array after its opening bracket, the members of an object after its
  opening brace. Each returns what it read and the rest of the input; \<open>None\<close> is the
  \<open>SyntaxError\<close>. The members are given to \<open>create_object\<close> in the order of the text.
\<close>

function parse_value :: "(jsstring \<Rightarrow> 'n) \<Rightarrow> jsstring \<Rightarrow> ('n json \<times> jsstring) option"
  and parse_elements :: "(jsstring \<Rightarrow> 'n) \<Rightarrow> jsstring \<Rightarrow> ('n json list \<times> jsstring) option"
  and parse_members :: "(jsstring \<Rightarrow> 'n) \<Rightarrow> jsstring \<Rightarrow> ((jsstring \<times> 'n json) list \<times> jsstring) option"
where
  "parse_value num s =
     (case s of
        [] \<Rightarrow> None
      | c # cs \<Rightarrow>
          if c = 0x22 then map_option (\<lambda>(k, r). (JString k, r)) (parse_chars cs)
          else if c = 0x5B then
            (case skip_ws cs of
               [] \<Rightarrow> None
             | d # ds \<Rightarrow>
                 if d = 0x5D then Some (JArray [], ds)
                 else map_option (\<lambda>(vs, r). (JArray vs, r)) (parse_elements num (d # ds)))
          else if c = 0x7B then
            (case skip_ws cs of
               [] \<Rightarrow> None
             | d # ds \<Rightarrow>
                 if d = 0x7D then Some (JObject [], ds)
                 else map_option (\<lambda>(ms, r). (JObject (create_object ms), r))
                        (parse_members num (d # ds)))
          else if prefix (str ''true'') s then Some (JBool True, drop 4 s)
          else if prefix (str ''false'') s then Some (JBool False, drop 5 s)
          else if prefix (str ''null'') s then Some (JNull, drop 4 s)
          else if c = 0x2D \<or> is_digit c then
            map_option (\<lambda>(lx, r). (JNumber (num lx), r)) (lex_number s)
          else None)"
| "parse_elements num s =
     (case parse_value num s of
        None \<Rightarrow> None
      | Some (v, r) \<Rightarrow>
          (case skip_ws r of
             [] \<Rightarrow> None
           | d # ds \<Rightarrow>
               if d = 0x2C then
                 map_option (\<lambda>(vs, r'). (v # vs, r')) (parse_elements num (skip_ws ds))
               else if d = 0x5D then Some ([v], ds)
               else None))"
| "parse_members num s =
     (case s of
        [] \<Rightarrow> None
      | c # cs \<Rightarrow>
          if c = 0x22 then
            (case parse_chars cs of
               None \<Rightarrow> None
             | Some (k, r) \<Rightarrow>
                 (case skip_ws r of
                    [] \<Rightarrow> None
                  | d # ds \<Rightarrow>
                      if d = 0x3A then
                        (case parse_value num (skip_ws ds) of
                           None \<Rightarrow> None
                         | Some (v, r') \<Rightarrow>
                             (case skip_ws r' of
                                [] \<Rightarrow> None
                              | e # es \<Rightarrow>
                                  if e = 0x2C then
                                    map_option (\<lambda>(ms, r''). ((k, v) # ms, r''))
                                      (parse_members num (skip_ws es))
                                  else if e = 0x7D then Some ([(k, v)], es)
                                  else None))
                      else None))
          else None)"
  by pat_completeness auto


text \<open>
  Termination: what is read is a non-empty prefix of the input. This is proved of the
  function on its domain first, and gives the measure of the nested calls.
\<close>

lemma length_skip_ws: "length (skip_ws s) \<le> length s"
  by (simp add: skip_ws_def length_dropWhile_le)

lemma skip_ws_Cons_shorter: "skip_ws r = d # ds \<Longrightarrow> length ds < length r"
  using length_skip_ws[of r] by simp

lemma parse_chars_shorter: "parse_chars cs = Some (k, r) \<Longrightarrow> length r < length cs"
proof (induction cs arbitrary: k rule: parse_chars.induct)
  case 1
  then show ?case by simp
next
  case (2 c cs)
  then show ?case
    by (fastforce split: if_splits list.splits option.splits)
qed

lemma lex_int_shorter: "lex_int s = Some (i, r) \<Longrightarrow> length r < length s"
  using length_dropWhile_le[of is_digit "tl s"]
  by (auto simp: lex_int_def split: list.splits if_splits)

lemma lex_digits_shorter: "lex_digits s = Some (i, r) \<Longrightarrow> length r \<le> length s"
  by (auto simp: lex_digits_def length_dropWhile_le split: list.splits)

lemma lex_frac_shorter: "lex_frac s = Some (i, r) \<Longrightarrow> length r \<le> length s"
  by (auto simp: lex_frac_def split: list.splits if_splits dest!: lex_digits_shorter)

lemma lex_exp_shorter: "lex_exp s = Some (i, r) \<Longrightarrow> length r \<le> length s"
  by (auto simp: lex_exp_def split: list.splits if_splits dest!: lex_digits_shorter)

lemma lex_number_shorter: "lex_number s = Some (lx, r) \<Longrightarrow> length r < length s"
  by (auto simp: lex_number_def split: list.splits if_splits option.splits prod.splits
      dest!: lex_int_shorter lex_frac_shorter lex_exp_shorter)


lemma parse_consumes_partial:
  "parse_value_parse_elements_parse_members_dom (Inl (num, s)) \<Longrightarrow>
     (\<forall>v r. parse_value num s = Some (v, r) \<longrightarrow> length r < length s)"
  "parse_value_parse_elements_parse_members_dom (Inr (Inl (num, s))) \<Longrightarrow>
     (\<forall>vs r. parse_elements num s = Some (vs, r) \<longrightarrow> length r < length s)"
  "parse_value_parse_elements_parse_members_dom (Inr (Inr (num, s))) \<Longrightarrow>
     (\<forall>ms r. parse_members num s = Some (ms, r) \<longrightarrow> length r < length s)"
proof (induct rule: parse_value_parse_elements_parse_members.pinduct)
  case (1 num s)
  show ?case
  proof (intro allI impI)
    fix v r assume p: "parse_value num s = Some (v, r)"
    note p' = p[unfolded parse_value.psimps[OF 1(1)]]
    from p' obtain c cs where s: "s = c # cs" by (cases s) simp_all
    note eq = p'[unfolded s list.case]
    show "length r < length s"
    proof (cases "c = 0x22")
      case True
      with eq s show ?thesis by (auto dest: parse_chars_shorter)
    next
      case q: False
      show ?thesis
      proof (cases "c = 0x5B")
        case True
        with eq q obtain d ds where sk: "skip_ws cs = d # ds"
          by (cases "skip_ws cs") simp_all
        show ?thesis
        proof (cases "d = 0x5D")
          case True
          with eq q \<open>c = 0x5B\<close> sk s skip_ws_Cons_shorter[OF sk] show ?thesis by simp
        next
          case False
          with eq q \<open>c = 0x5B\<close> sk obtain vs where "parse_elements num (d # ds) = Some (vs, r)"
            by auto
          with 1(2)[OF s q \<open>c = 0x5B\<close> sk False] have "length r < length (d # ds)" by blast
          with length_skip_ws[of cs] sk s show ?thesis by simp
        qed
      next
        case b: False
        show ?thesis
        proof (cases "c = 0x7B")
          case True
          with eq q b obtain d ds where sk: "skip_ws cs = d # ds"
            by (cases "skip_ws cs") simp_all
          show ?thesis
          proof (cases "d = 0x7D")
            case True
            with eq q b \<open>c = 0x7B\<close> sk s skip_ws_Cons_shorter[OF sk] show ?thesis by simp
          next
            case False
            with eq q b \<open>c = 0x7B\<close> sk obtain ms where "parse_members num (d # ds) = Some (ms, r)"
              by auto
            with 1(3)[OF s q b \<open>c = 0x7B\<close> sk False] have "length r < length (d # ds)" by blast
            with length_skip_ws[of cs] sk s show ?thesis by simp
          qed
        next
          case o: False
          from eq q b o s show ?thesis
            by (auto split: if_splits dest: lex_number_shorter simp: prefix_def str_def)
        qed
      qed
    qed
  qed
next
  case (2 num s)
  show ?case
  proof (intro allI impI)
    fix vs r assume p: "parse_elements num s = Some (vs, r)"
    note eq = p[unfolded parse_elements.psimps[OF 2(1)]]
    from eq obtain v r1 where v: "parse_value num s = Some (v, r1)"
      by (cases "parse_value num s") auto
    with 2(2) have l1: "length r1 < length s" by blast
    from eq v obtain d ds where sk: "skip_ws r1 = d # ds" by (cases "skip_ws r1") simp_all
    show "length r < length s"
    proof (cases "d = 0x2C")
      case True
      with eq v sk obtain vs' where "parse_elements num (skip_ws ds) = Some (vs', r)" by auto
      with 2(3)[OF v refl sk True] have "length r < length (skip_ws ds)" by blast
      with length_skip_ws[of ds] skip_ws_Cons_shorter[OF sk] l1 show ?thesis by simp
    next
      case False
      with eq v sk have "r = ds" by (auto split: if_splits)
      with skip_ws_Cons_shorter[OF sk] l1 show ?thesis by simp
    qed
  qed
next
  case (3 num s)
  show ?case
  proof (intro allI impI)
    fix ms r assume p: "parse_members num s = Some (ms, r)"
    note p' = p[unfolded parse_members.psimps[OF 3(1)]]
    from p' obtain c cs where s: "s = c # cs" by (cases s) simp_all
    note eq = p'[unfolded s list.case]
    from eq have c: "c = 0x22" by (auto split: if_splits)
    from eq c obtain k r0 where k: "parse_chars cs = Some (k, r0)"
      by (cases "parse_chars cs") auto
    from eq c k obtain d ds where sk: "skip_ws r0 = d # ds" by (cases "skip_ws r0") simp_all
    from eq c k sk have d: "d = 0x3A" by (auto split: if_splits)
    from eq c k sk d obtain v r1 where v: "parse_value num (skip_ws ds) = Some (v, r1)"
      by (cases "parse_value num (skip_ws ds)") auto
    from 3(2)[OF s c k refl sk d] v have l1: "length r1 < length (skip_ws ds)" by blast
    have l0: "length (skip_ws ds) < length s"
      using length_skip_ws[of ds] skip_ws_Cons_shorter[OF sk] parse_chars_shorter[OF k] s by simp
    from eq c k sk d v obtain e es where sk2: "skip_ws r1 = e # es" by (cases "skip_ws r1") simp_all
    show "length r < length s"
    proof (cases "e = 0x2C")
      case True
      with eq c k sk d v sk2 obtain ms' where "parse_members num (skip_ws es) = Some (ms', r)" by auto
      with 3(3)[OF s c k refl sk d v refl sk2 True] have "length r < length (skip_ws es)" by blast
      with length_skip_ws[of es] skip_ws_Cons_shorter[OF sk2] l1 l0 show ?thesis by simp
    next
      case False
      with eq c k sk d v sk2 have "r = es" by (auto split: if_splits)
      with skip_ws_Cons_shorter[OF sk2] l1 l0 show ?thesis by simp
    qed
  qed
qed


termination parse_value
proof (relation "measure (\<lambda>x. case x of
                            Inl (num, s) \<Rightarrow> 2 * length s
                          | Inr (Inl (num, s)) \<Rightarrow> 2 * length s + 1
                          | Inr (Inr (num, s)) \<Rightarrow> 2 * length s + 1)", goal_cases)
  case 1
  show ?case by simp
next
  case (2 num s c cs d ds)
  with length_skip_ws[of cs] show ?case by simp
next
  case (3 num s c cs d ds)
  with length_skip_ws[of cs] show ?case by simp
next
  case (4 num s)
  show ?case by simp
next
  case (5 num s x v r d ds)
  from parse_consumes_partial(1)[OF 5(5)] 5(1,2) have "length r < length s" by auto
  with length_skip_ws[of ds] skip_ws_Cons_shorter[OF 5(3)] show ?case by simp
next
  case (6 num s c cs x k r d ds)
  from 6(3,4) have "parse_chars cs = Some (k, r)" by simp
  from parse_chars_shorter[OF this] length_skip_ws[of ds] skip_ws_Cons_shorter[OF 6(5)] 6(1)
  show ?case by simp
next
  case (7 num s c cs x k r d ds y v r' e es)
  then have pc: "parse_chars cs = Some (k, r)" and sk: "skip_ws r = d # ds"
    and pv: "parse_value num (skip_ws ds) = Some (v, r')" and sk2: "skip_ws r' = e # es"
    and dom: "parse_value_parse_elements_parse_members_dom (Inl (num, skip_ws ds))"
    by simp_all
  note a = parse_chars_shorter[OF pc] length_skip_ws[of ds] skip_ws_Cons_shorter[OF sk]
  from parse_consumes_partial(1)[OF dom] pv have "length r' < length (skip_ws ds)" by auto
  with a length_skip_ws[of es] skip_ws_Cons_shorter[OF sk2] 7(1) show ?case by simp
qed

declare parse_value.simps [simp del] parse_elements.simps [simp del] parse_members.simps [simp del]

text \<open>\<open>JSON.parse\<close> without a reviver: white space, a value, white space, the end.\<close>

definition JSON_parse :: "(jsstring \<Rightarrow> 'n) \<Rightarrow> jsstring \<Rightarrow> 'n json option" where
  "JSON_parse num text =
     (case parse_value num (skip_ws text) of
        None \<Rightarrow> None
      | Some (v, r) \<Rightarrow> if skip_ws r = [] then Some v else None)"

subsection \<open>Serialization\<close>

text \<open>
  \<open>QuoteJSONString\<close>: the short escapes, \<open>\u\<close> and four lower-case hexadecimal digits for
  the other control characters and for a surrogate that has no partner, the code unit
  itself otherwise.
\<close>

definition hex_digit :: "nat \<Rightarrow> 16 word" where
  "hex_digit n = (if n < 10 then of_nat (48 + n) else of_nat (87 + n))"

definition unicode_escape :: "16 word \<Rightarrow> jsstring" where
  "unicode_escape c =
     [0x5C, 0x75, hex_digit (unat c div 4096), hex_digit (unat c div 256 mod 16),
      hex_digit (unat c div 16 mod 16), hex_digit (unat c mod 16)]"

definition is_high_surrogate :: "16 word \<Rightarrow> bool" where
  "is_high_surrogate c = (0xD800 \<le> c \<and> c \<le> 0xDBFF)"

definition is_low_surrogate :: "16 word \<Rightarrow> bool" where
  "is_low_surrogate c = (0xDC00 \<le> c \<and> c \<le> 0xDFFF)"

fun quote_chars :: "jsstring \<Rightarrow> jsstring" where
  "quote_chars [] = []"
| "quote_chars (c # cs) =
     (if c = 0x08 then [0x5C, 0x62] @ quote_chars cs
      else if c = 0x09 then [0x5C, 0x74] @ quote_chars cs
      else if c = 0x0A then [0x5C, 0x6E] @ quote_chars cs
      else if c = 0x0C then [0x5C, 0x66] @ quote_chars cs
      else if c = 0x0D then [0x5C, 0x72] @ quote_chars cs
      else if c = 0x22 then [0x5C, 0x22] @ quote_chars cs
      else if c = 0x5C then [0x5C, 0x5C] @ quote_chars cs
      else if c < 0x20 then unicode_escape c @ quote_chars cs
      else if is_high_surrogate c then
        (case cs of
           [] \<Rightarrow> unicode_escape c
         | d # ds \<Rightarrow>
             if is_low_surrogate d then c # d # quote_chars ds
             else unicode_escape c @ quote_chars cs)
      else if is_low_surrogate c then unicode_escape c @ quote_chars cs
      else c # quote_chars cs)"

definition quote :: "jsstring \<Rightarrow> jsstring" where
  "quote s = 0x22 # quote_chars s @ [0x22]"

text \<open>
  \<open>SerializeJSONProperty\<close> with a gap of two spaces and no replacer, at the indentation
  \<open>ind\<close>. The values are those that \<open>JSON.parse\<close> builds, so that none is left out and
  none has a \<open>toJSON\<close> method.
\<close>

definition gap :: jsstring where
  "gap = [0x20, 0x20]"

fun join :: "jsstring \<Rightarrow> jsstring list \<Rightarrow> jsstring" where
  "join sep [] = []"
| "join sep [x] = x"
| "join sep (x # y # ys) = x @ sep @ join sep (y # ys)"

fun ser :: "('n \<Rightarrow> jsstring) \<Rightarrow> jsstring \<Rightarrow> 'n json \<Rightarrow> jsstring" where
  "ser nt ind JNull = str ''null''"
| "ser nt ind (JBool b) = (if b then str ''true'' else str ''false'')"
| "ser nt ind (JNumber d) = nt d"
| "ser nt ind (JString s) = quote s"
| "ser nt ind (JArray vs) =
     (if vs = [] then str ''[]''
      else [0x5B, 0x0A] @ (ind @ gap) @
           join ([0x2C, 0x0A] @ ind @ gap) (map (ser nt (ind @ gap)) vs) @
           [0x0A] @ ind @ [0x5D])"
| "ser nt ind (JObject ps) =
     (if ps = [] then str ''{}''
      else [0x7B, 0x0A] @ (ind @ gap) @
           join ([0x2C, 0x0A] @ ind @ gap)
             (map (\<lambda>p. quote (fst p) @ [0x3A, 0x20] @ ser nt (ind @ gap) (snd p)) ps) @
           [0x0A] @ ind @ [0x7D])"

text \<open>\<open>JSON.stringify(value, null, 2)\<close>.\<close>

definition JSON_stringify :: "('n \<Rightarrow> jsstring) \<Rightarrow> 'n json \<Rightarrow> jsstring" where
  "JSON_stringify nt v = ser nt [] v"

section \<open>\<open>formatJson\<close>, \<open>isValidJson\<close>, \<open>formatContent\<close>\<close>

text \<open>
  The three functions of the source, over the numbers \<open>P\<close> of the platform. An exception
  of \<open>JSON.parse\<close> is caught in each; \<open>JSON.stringify\<close> does not throw on a parsed value.
\<close>

definition formatJson :: "'n numbers \<Rightarrow> jsstring \<Rightarrow> jsstring" where
  "formatJson P jsonString =
     (case JSON_parse (to_number P) jsonString of
        Some obj \<Rightarrow> JSON_stringify (num_text P) obj
      | None \<Rightarrow> jsonString)"

definition isValidJson :: "'n numbers \<Rightarrow> jsstring \<Rightarrow> bool" where
  "isValidJson P s =
     (case JSON_parse (to_number P) s of
        Some obj \<Rightarrow> True
      | None \<Rightarrow> False)"

definition formatContent :: "'n numbers \<Rightarrow> jsstring \<Rightarrow> jsstring \<Rightarrow> jsstring" where
  "formatContent P content type =
     (if type = str ''text/plain'' \<and> isValidJson P content then formatJson P content
      else content)"

subsection \<open>Numbers whose conversion is exact\<close>

text \<open>
  An instance of the numbers of the platform for the tokens whose value is an integer of
  magnitude at most \<open>2^53\<close>: such a value is a double, and its text is its decimal digits.
  The instance computes no rounding: a token of any other value is kept as it is, under
  \<open>Beyond\<close>, and nothing is stated about its text.
\<close>

datatype jsnumber = Integer int | Beyond jsstring

definition exponent_value :: "jsstring \<Rightarrow> int" where
  "exponent_value e =
     (case e of
        [] \<Rightarrow> 0
      | c # rest \<Rightarrow>
          (case rest of
             [] \<Rightarrow> 0
           | g # ds \<Rightarrow>
               if g = 0x2D then - digit_value ds
               else if g = 0x2B then digit_value ds
               else digit_value rest))"

definition exact_value :: "jsstring \<Rightarrow> int option" where
  "exact_value lx =
     (let (sign, s0) = (case lx of [] \<Rightarrow> (1, lx) | c # cs \<Rightarrow> if c = 0x2D then (- 1, cs) else (1, lx))
      in case lex_int s0 of
           None \<Rightarrow> None
         | Some (i, s1) \<Rightarrow>
             (case lex_frac s1 of
                None \<Rightarrow> None
              | Some (f, s2) \<Rightarrow>
                  (case lex_exp s2 of
                     None \<Rightarrow> None
                   | Some (e, s3) \<Rightarrow>
                       (let m = digit_value (i @ tl f);
                            x = exponent_value e - int (length (tl f))
                        in if 0 \<le> x then Some (sign * m * 10 ^ nat x)
                           else if 10 ^ nat (- x) dvd m then Some (sign * (m div 10 ^ nat (- x)))
                           else None))))"

definition exact_number :: "jsstring \<Rightarrow> jsnumber" where
  "exact_number lx =
     (case exact_value lx of
        None \<Rightarrow> Beyond lx
      | Some n \<Rightarrow> if \<bar>n\<bar> \<le> 2 ^ 53 then Integer n else Beyond lx)"

text \<open>The decimal digits of an integer that is not negative.\<close>

function digits_of :: "int \<Rightarrow> jsstring" where
  "digits_of n = (if n < 10 then [of_int (48 + n)] else digits_of (n div 10) @ [of_int (48 + n mod 10)])"
  by pat_completeness auto

termination digits_of
  by (relation "measure nat") auto

declare digits_of.simps [simp del]

definition number_text :: "jsnumber \<Rightarrow> jsstring" where
  "number_text d =
     (case d of
        Integer n \<Rightarrow> if n < 0 then 0x2D # digits_of (- n) else digits_of n
      | Beyond lx \<Rightarrow> lx)"

definition exact_numbers :: "jsnumber numbers" where
  "exact_numbers = \<lparr>to_number = exact_number, num_text = number_text\<rparr>"

section \<open>Predicates of the statements about JSON\<close>

text \<open>
  A number token as a whole input, and an input before which a number token ends: the
  end of the input, or a character that cannot continue a number.
\<close>

definition number_token :: "jsstring \<Rightarrow> bool" where
  "number_token lx = (lex_number lx = Some (lx, []))"

definition delimited :: "jsstring \<Rightarrow> bool" where
  "delimited rest =
     (case rest of [] \<Rightarrow> True | c # cs \<Rightarrow> \<not> is_digit c \<and> c \<noteq> 0x2E \<and> c \<noteq> 0x65 \<and> c \<noteq> 0x45)"

text \<open>The next character of the input is one of a kind.\<close>

definition next_is :: "(16 word \<Rightarrow> bool) \<Rightarrow> jsstring \<Rightarrow> bool" where
  "next_is Q rest = (case rest of [] \<Rightarrow> False | c # cs \<Rightarrow> Q c)"

text \<open>A character with which the text of a value may start inside an array or an object.\<close>

definition opens_value :: "16 word \<Rightarrow> bool" where
  "opens_value c = (\<not> is_ws c \<and> c \<noteq> 0x5D \<and> c \<noteq> 0x7D \<and> c \<noteq> 0x2C)"

text \<open>
  The order of the properties of an object: no key is listed twice, and a key that is an
  array index comes after array indices only, none of them greater.
\<close>

definition precedes :: "jsstring \<times> 'a \<Rightarrow> jsstring \<times> 'b \<Rightarrow> bool" where
  "precedes p q = (case array_index (fst q) of None \<Rightarrow> True | Some j \<Rightarrow> before_index j p)"

fun props_ordered :: "(jsstring \<times> 'a) list \<Rightarrow> bool" where
  "props_ordered [] = True"
| "props_ordered (p # ps) = (list_all (precedes p) ps \<and> props_ordered ps)"

definition props_ok :: "(jsstring \<times> 'a) list \<Rightarrow> bool" where
  "props_ok ps = (distinct (map fst ps) \<and> props_ordered ps)"

fun keys_ok :: "'n json \<Rightarrow> bool" where
  "keys_ok (JArray vs) = list_all keys_ok vs"
| "keys_ok (JObject ps) = (props_ok ps \<and> list_all (\<lambda>p. keys_ok (snd p)) ps)"
| "keys_ok v = True"

text \<open>
  What is asked of the numbers of the platform. The text of a number is \<open>null\<close> or a
  number token (\<open>number_ok\<close>); and the number which that token denotes has the same text
  again (\<open>text_stable\<close>): the decimal text of a double denotes that double.
\<close>

definition number_ok :: "('n \<Rightarrow> jsstring) \<Rightarrow> 'n \<Rightarrow> bool" where
  "number_ok nt d = (nt d = str ''null'' \<or> number_token (nt d))"

fun numbers_ok :: "('n \<Rightarrow> jsstring) \<Rightarrow> 'n json \<Rightarrow> bool" where
  "numbers_ok nt (JNumber d) = number_ok nt d"
| "numbers_ok nt (JArray vs) = list_all (numbers_ok nt) vs"
| "numbers_ok nt (JObject ps) = list_all (\<lambda>p. numbers_ok nt (snd p)) ps"
| "numbers_ok nt v = True"

definition text_stable :: "'n numbers \<Rightarrow> 'n \<Rightarrow> bool" where
  "text_stable P d =
     (num_text P d = str ''null'' \<or>
      (number_token (num_text P d) \<and> num_text P (to_number P (num_text P d)) = num_text P d))"

fun numbers_stable :: "'n numbers \<Rightarrow> 'n json \<Rightarrow> bool" where
  "numbers_stable P (JNumber d) = text_stable P d"
| "numbers_stable P (JArray vs) = list_all (numbers_stable P) vs"
| "numbers_stable P (JObject ps) = list_all (\<lambda>p. numbers_stable P (snd p)) ps"
| "numbers_stable P v = True"

text \<open>
  The value that \<open>JSON.parse\<close> reads back from the text of a value: each number is
  replaced by the number that its text denotes, or by \<open>null\<close>.
\<close>

fun reread :: "'n numbers \<Rightarrow> 'n json \<Rightarrow> 'n json" where
  "reread P (JNumber d) =
     (if num_text P d = str ''null'' then JNull else JNumber (to_number P (num_text P d)))"
| "reread P (JArray vs) = JArray (map (reread P) vs)"
| "reread P (JObject ps) = JObject (map (\<lambda>p. (fst p, reread P (snd p))) ps)"
| "reread P v = v"

section \<open>\<open>copyToClipboard\<close>\<close>

subsection \<open>The page\<close>

text \<open>
  The part of the document the function touches: the children of \<open>document.body\<close>
  (\<open>None\<close> when \<open>document.body\<close> is \<open>null\<close>), the \<open>copy\<close> listeners of the document, the
  focused element, and the representations on the system clipboard. Elements and
  listeners have an identity, drawn from the counter \<open>fresh\<close>.
\<close>

datatype node = TextArea nat jsstring | OtherNode nat

datatype listener = CopyHandler nat jsstring | OtherListener nat

record page =
  body :: "node list option"
  copy_listeners :: "listener list"
  active :: "node option"
  clipboard :: "(jsstring \<times> jsstring) list"
  fresh :: nat

text \<open>
  The parameter \<open>content\<close> is declared \<open>string\<close>, and every caller in the repository
  passes a string. Types are erased when the code runs and the function has no check of
  its own, so the model takes any payload: where the platform wants a string it
  converts, and an object becomes \<open>[object Object]\<close>.
\<close>

fun to_string :: "payload \<Rightarrow> jsstring" where
  "to_string (Text s) = s"
| "to_string (File f) = str ''[object Object]''"

subsection \<open>The legacy path\<close>

text \<open>
  The text area is selected whole. The selection runs over its value with the line
  breaks normalised: a carriage return, together with the line feed that follows it if
  there is one, reads as one line feed.
\<close>

fun normalize_newlines :: "jsstring \<Rightarrow> jsstring" where
  "normalize_newlines (c # d # cs) =
     (if c = 0x0D \<and> d = 0x0A then 0x0A # normalize_newlines cs
      else if c = 0x0D then 0x0A # normalize_newlines (d # cs)
      else c # normalize_newlines (d # cs))"
| "normalize_newlines [c] = (if c = 0x0D then [0x0A] else [c])"
| "normalize_newlines [] = []"

text \<open>
  The \<open>copy\<close> event of a successful command: every handler installed by this function
  cancels the default action and sets both representations to its content, and these go
  to the clipboard. Without such a handler the default action copies the selection as
  plain text, if there is one: an empty selection leaves the clipboard as it was.
\<close>

fun set_data :: "jsstring \<Rightarrow> jsstring \<Rightarrow> (jsstring \<times> jsstring) list \<Rightarrow> (jsstring \<times> jsstring) list" where
  "set_data fmt v [] = [(fmt, v)]"
| "set_data fmt v ((f, w) # rest) = (if f = fmt then (f, v) # rest else (f, w) # set_data fmt v rest)"

fun run_handlers :: "listener list \<Rightarrow> (jsstring \<times> jsstring) list option \<Rightarrow> (jsstring \<times> jsstring) list option" where
  "run_handlers [] acc = acc"
| "run_handlers (CopyHandler h c # ls) acc =
     run_handlers ls
       (Some (set_data (str ''text/plain'') c
               (set_data (str ''application/json'') c (case acc of None \<Rightarrow> [] | Some d \<Rightarrow> d))))"
| "run_handlers (OtherListener h # ls) acc = run_handlers ls acc"

definition dispatch_copy :: "jsstring \<Rightarrow> page \<Rightarrow> page" where
  "dispatch_copy selection pg =
     (case run_handlers (copy_listeners pg) None of
        None \<Rightarrow> if selection = [] then pg else pg\<lparr>clipboard := [(str ''text/plain'', selection)]\<rparr>
      | Some d \<Rightarrow> pg\<lparr>clipboard := d\<rparr>)"

text \<open>\<open>document.execCommand('copy')\<close>: \<open>Inl\<close> is the exception thrown.\<close>

definition exec_copy :: "env \<Rightarrow> jsstring \<Rightarrow> page \<Rightarrow> error + page" where
  "exec_copy ev selection pg =
     (case execCommand ev of
        ExecThrows e \<Rightarrow> Inl e
      | ExecFalse \<Rightarrow> Inr pg
      | ExecTrue \<Rightarrow> Inr (dispatch_copy selection pg))"

text \<open>
  Lines 136 to 164 of the source. The result is the exception thrown, if any, and the page
  at that point or at the end.
\<close>

definition legacy_copy :: "env \<Rightarrow> payload \<Rightarrow> bool \<Rightarrow> page \<Rightarrow> error option \<times> page" where
  "legacy_copy ev content isJson pg =
     (let textArea = TextArea (fresh pg) (to_string content);
          pg1 = pg\<lparr>fresh := fresh pg + 1\<rparr>
      in case body pg1 of
           None \<Rightarrow> (Some (Error ''TypeError''), pg1)
         | Some children \<Rightarrow>
             (let pg2 = pg1\<lparr>body := Some (children @ [textArea]), active := Some textArea\<rparr>
              in if isJson
                 then (let copyHandler = CopyHandler (fresh pg2) (to_string content);
                           pg3 = pg2\<lparr>copy_listeners := copy_listeners pg2 @ [copyHandler],
                                      fresh := fresh pg2 + 1\<rparr>
                       in case exec_copy ev (normalize_newlines (to_string content)) pg3 of
                            Inl e \<Rightarrow> (Some e, pg3)
                          | Inr pg4 \<Rightarrow>
                              (let pg5 = pg4\<lparr>copy_listeners := removeAll copyHandler (copy_listeners pg4)\<rparr>
                               in (None, pg5\<lparr>body := map_option (removeAll textArea) (body pg5),
                                              active := None\<rparr>)))
                 else (case exec_copy ev (normalize_newlines (to_string content)) pg2 of
                         Inl e \<Rightarrow> (Some e, pg2)
                       | Inr pg4 \<Rightarrow>
                           (None, pg4\<lparr>body := map_option (removeAll textArea) (body pg4),
                                       active := None\<rparr>))))"

subsection \<open>The modern path and the last attempt\<close>

text \<open>
  An awaited write of the asynchronous API inside its own \<open>try\<close>: a rejection is logged
  and swallowed, so what is left is whether the function goes on (\<open>Some\<close> of the page) or
  waits for ever (\<open>None\<close>).
\<close>

definition awaited :: "unit promise \<Rightarrow> (jsstring \<times> jsstring) list \<Rightarrow> page \<Rightarrow> page option" where
  "awaited p reps pg =
     (case p of
        Fulfils u \<Rightarrow> Some (pg\<lparr>clipboard := reps\<rparr>)
      | Rejects e \<Rightarrow> Some pg
      | Hangs \<Rightarrow> None)"

definition modern_copy :: "env \<Rightarrow> payload \<Rightarrow> bool \<Rightarrow> page \<Rightarrow> page option" where
  "modern_copy ev content isJson pg =
     (case navigator_clipboard ev of
        None \<Rightarrow> Some pg
      | Some api \<Rightarrow>
          (case (if isJson then clipboard_write api else None) of
             Some p \<Rightarrow>
               (if ClipboardItem_defined ev
                then awaited p [(str ''text/plain'', to_string content),
                                (str ''application/json'', to_string content)] pg
                else Some pg)
           | None \<Rightarrow>
               (case clipboard_writeText api of
                  None \<Rightarrow> Some pg
                | Some p \<Rightarrow> awaited p [(str ''text/plain'', to_string content)] pg)))"

text \<open>The \<open>catch\<close> block: one more \<open>navigator.clipboard.writeText\<close>, in its own \<open>try\<close>.\<close>

definition last_attempt :: "env \<Rightarrow> payload \<Rightarrow> page \<Rightarrow> bool promise \<times> page" where
  "last_attempt ev content pg =
     (case navigator_clipboard ev of
        None \<Rightarrow> (Fulfils False, pg)
      | Some api \<Rightarrow>
          (case clipboard_writeText api of
             None \<Rightarrow> (Fulfils False, pg)
           | Some (Fulfils u) \<Rightarrow> (Fulfils True, pg\<lparr>clipboard := [(str ''text/plain'', to_string content)]\<rparr>)
           | Some (Rejects e) \<Rightarrow> (Fulfils False, pg)
           | Some Hangs \<Rightarrow> (Hangs, pg)))"

subsection \<open>The function\<close>

definition copyToClipboard :: "env \<Rightarrow> payload \<Rightarrow> bool \<Rightarrow> page \<Rightarrow> bool promise \<times> page" where
  "copyToClipboard ev content isJson pg =
     (case legacy_copy ev content isJson pg of
        (None, pg1) \<Rightarrow>
          (case modern_copy ev content isJson pg1 of
             Some pg2 \<Rightarrow> (Fulfils True, pg2)
           | None \<Rightarrow> (Hangs, pg1))
      | (Some e, pg1) \<Rightarrow> last_attempt ev content pg1)"

section \<open>The component \<open>ClipboardType\<close> and \<open>copyToClipboardHandler\<close>\<close>







section \<open>Predicates of the statements and concrete inputs\<close>

subsection \<open>Sub-fetches of a \<open>ClipboardItem\<close>\<close>

fun fulfilled :: "'a promise \<Rightarrow> bool" where
  "fulfilled (Fulfils x) = True"
| "fulfilled (Rejects e) = False"
| "fulfilled Hangs = False"

fun rejected :: "'a promise \<Rightarrow> bool" where
  "rejected (Fulfils x) = False"
| "rejected (Rejects e) = True"
| "rejected Hangs = False"

text \<open>
  The sub-fetch of type \<open>t\<close> succeeds: \<open>getType\<close> fulfils and, when the blob is textual,
  so does its \<open>text()\<close>. It fails: one of the two rejects.
\<close>

definition fetch_succeeds :: "clipboard_item \<Rightarrow> jsstring \<Rightarrow> bool" where
  "fetch_succeeds c t =
     (case getType c t of
        Fulfils b \<Rightarrow> prefix (str ''text/'') (blob_type b) \<longrightarrow> fulfilled (blob_text b)
      | Rejects e \<Rightarrow> False
      | Hangs \<Rightarrow> False)"

definition fetch_rejects :: "clipboard_item \<Rightarrow> jsstring \<Rightarrow> bool" where
  "fetch_rejects c t =
     (case getType c t of
        Fulfils b \<Rightarrow> prefix (str ''text/'') (blob_type b) \<and> rejected (blob_text b)
      | Rejects e \<Rightarrow> True
      | Hangs \<Rightarrow> False)"

text \<open>
  The entry \<open>v\<close> is the representation of the \<open>i\<close>-th advertised type: it carries that
  type and the content that the callback builds from the blob of that type (the URL of a
  \<open>FileInfo\<close> depends on the store at the time, which is left open).
\<close>

definition built_from :: "clipboard_item \<Rightarrow> nat \<Rightarrow> ClipboardTypeData \<Rightarrow> bool" where
  "built_from c i v =
     (ctd_type v = ci_types c ! i \<and>
      (\<exists>b st0. getType c (ci_types c ! i) = Fulfils b \<and>
                fst (blob_content b st0) = Fulfils (ctd_data v)))"

subsection \<open>The invariant of the specification\<close>

text \<open>
  A field is populated when it is present and not empty; the specification asks that one
  of the three fields of an entry be.
\<close>

fun populated :: "'a list field \<Rightarrow> bool" where
  "populated (Present (x # xs)) = True"
| "populated (Present []) = False"
| "populated Null = False"
| "populated Absent = False"

definition some_field_populated :: "ExtractedData \<Rightarrow> bool" where
  "some_field_populated e = (populated (types e) \<or> populated (items e) \<or> populated (files e))"

text \<open>
  What an input advertises: a \<open>DataTransfer\<close> its types, items and files (the last two
  may be \<open>null\<close>), a \<open>ClipboardItem\<close> its types. \<open>advertises\<close>: there is at least one.
\<close>

fun advertises :: "raw \<Rightarrow> bool" where
  "advertises (Transfer d) =
     (dt_types d \<noteq> [] \<or>
      (case dt_items d of Some l \<Rightarrow> l \<noteq> [] | None \<Rightarrow> False) \<or>
      (case dt_files d of Some l \<Rightarrow> l \<noteq> [] | None \<Rightarrow> False))"
| "advertises (Item c) = (ci_types c \<noteq> [])"
| "advertises Undefined = False"
| "advertises NullValue = False"
| "advertises (Boolean b) = False"
| "advertises (Number n) = False"
| "advertises (String s) = False"
| "advertises OtherObject = False"

subsection \<open>Concrete inputs\<close>

definition hello_data :: "jsstring \<Rightarrow> jsstring" where
  "hello_data t =
     (if t = str ''text/plain'' then str ''hello''
      else if t = str ''text/html'' then str ''<b>hello</b>''
      else [])"

definition hello_transfer :: data_transfer where
  "hello_transfer =
     \<lparr>dt_types = [str ''text/plain'', str ''text/html''], getData = hello_data,
      dt_items = Some [], dt_files = Some []\<rparr>"

definition no_data :: "jsstring \<Rightarrow> jsstring" where
  "no_data t = []"

definition empty_transfer :: data_transfer where
  "empty_transfer = \<lparr>dt_types = [], getData = no_data, dt_items = Some [], dt_files = Some []\<rparr>"

definition text_blob :: "jsstring \<Rightarrow> jsstring \<Rightarrow> blob" where
  "text_blob t s = \<lparr>blob_name = None, blob_size = length s, blob_type = t, blob_text = Fulfils s\<rparr>"

definition png_blob :: blob where
  "png_blob = \<lparr>blob_name = None, blob_size = 68, blob_type = str ''image/png'',
               blob_text = Fulfils []\<rparr>"

definition text_and_image :: "jsstring \<Rightarrow> blob promise" where
  "text_and_image t =
     (if t = str ''text/plain'' then Fulfils (text_blob (str ''text/plain'') (str ''hello''))
      else if t = str ''image/png'' then Fulfils png_blob
      else Rejects (Error ''NotFoundError''))"

definition two_types_item :: clipboard_item where
  "two_types_item = \<lparr>ci_types = [str ''text/plain'', str ''image/png''], getType = text_and_image\<rparr>"

definition text_only :: "jsstring \<Rightarrow> blob promise" where
  "text_only t =
     (if t = str ''text/plain'' then Fulfils (text_blob (str ''text/plain'') (str ''hello''))
      else Rejects (Error ''NotFoundError''))"

definition one_failing_item :: clipboard_item where
  "one_failing_item = \<lparr>ci_types = [str ''text/plain'', str ''text/html''], getType = text_only\<rparr>"

subsection \<open>What the platform answers to \<open>copyToClipboard\<close>\<close>

text \<open>
  The legacy path throws when \<open>document.body\<close> is \<open>null\<close> or the copy command throws.
  \<open>modern_pending\<close>: the promise awaited in the modern path, if there is one, never
  settles. \<open>last_write\<close>: the promise of the \<open>writeText\<close> of the \<open>catch\<close> block, if
  the method can be called at all.
\<close>

definition legacy_throws :: "env \<Rightarrow> page \<Rightarrow> bool" where
  "legacy_throws ev pg =
     (body pg = None \<or> (case execCommand ev of ExecThrows e \<Rightarrow> True | ExecTrue \<Rightarrow> False | ExecFalse \<Rightarrow> False))"

definition modern_pending :: "env \<Rightarrow> bool \<Rightarrow> bool" where
  "modern_pending ev isJson =
     (case navigator_clipboard ev of
        None \<Rightarrow> False
      | Some api \<Rightarrow>
          (case (if isJson then clipboard_write api else None) of
             Some p \<Rightarrow> ClipboardItem_defined ev \<and> p = Hangs
           | None \<Rightarrow> clipboard_writeText api = Some Hangs))"

definition last_write :: "env \<Rightarrow> unit promise option" where
  "last_write ev =
     (case navigator_clipboard ev of None \<Rightarrow> None | Some api \<Rightarrow> clipboard_writeText api)"

text \<open>Identities are fresh: every element and listener of the page was drawn from the counter.\<close>

fun node_id :: "node \<Rightarrow> nat" where
  "node_id (TextArea i v) = i"
| "node_id (OtherNode i) = i"

fun listener_id :: "listener \<Rightarrow> nat" where
  "listener_id (CopyHandler i c) = i"
| "listener_id (OtherListener i) = i"

definition page_ok :: "page \<Rightarrow> bool" where
  "page_ok pg =
     (list_all (\<lambda>n. node_id n < fresh pg) (case body pg of None \<Rightarrow> [] | Some ch \<Rightarrow> ch) \<and>
      list_all (\<lambda>l. listener_id l < fresh pg) (copy_listeners pg))"

definition blank_page :: page where
  "blank_page = \<lparr>body = Some [], copy_listeners = [], active = None, clipboard = [], fresh = 0\<rparr>"

text \<open>
  A platform on which every write fails without an exception: the copy command returns
  \<open>false\<close> and both methods of the asynchronous API reject.
\<close>

definition refusing_env :: env where
  "refusing_env =
     \<lparr>execCommand = ExecFalse,
      navigator_clipboard = Some \<lparr>clipboard_write = Some (Rejects (Error ''NotAllowedError'')),
                                  clipboard_writeText = Some (Rejects (Error ''NotAllowedError''))\<rparr>,
      ClipboardItem_defined = True\<rparr>"

text \<open>A platform on which everything works, in a secure context.\<close>

definition modern_env :: env where
  "modern_env =
     \<lparr>execCommand = ExecTrue,
      navigator_clipboard = Some \<lparr>clipboard_write = Some (Fulfils ()),
                                  clipboard_writeText = Some (Fulfils ())\<rparr>,
      ClipboardItem_defined = True\<rparr>"

text \<open>
  A platform with the legacy path only, whose copy command works: an insecure context,
  where neither \<open>navigator.clipboard\<close> nor \<open>ClipboardItem\<close> exists.
\<close>

definition legacy_env :: env where
  "legacy_env = \<lparr>execCommand = ExecTrue, navigator_clipboard = None, ClipboardItem_defined = False\<rparr>"

text \<open>A platform whose copy command throws, and which has no asynchronous API.\<close>

definition throwing_env :: env where
  "throwing_env =
     \<lparr>execCommand = ExecThrows (Error ''NotAllowedError''), navigator_clipboard = None,
      ClipboardItem_defined = False\<rparr>"


subsection \<open>A JSON text\<close>

definition sample_text :: jsstring where
  "sample_text = str '' {\"b\": [1e2, true], \"1\": \"x\"} ''"

definition sample_value :: "jsnumber json" where
  "sample_value =
     JObject [(str ''1'', JString (str ''x'')),
              (str ''b'', JArray [JNumber (Integer 100), JBool True])]"

section \<open>Properties of \<open>extractData\<close>\<close>

subsection \<open>Evaluation on the concrete inputs\<close>

lemma empty_transfer_extracted:
  "extractData ev sched (Transfer empty_transfer) [] =
     (Fulfils (Some \<lparr>ed_type = DataTransfer, types = Present [], items = Present [],
                      files = Present []\<rparr>), [])"
  by (simp add: extractData_def extract_transfer_def empty_transfer_def)

lemma hello_transfer_extracted:
  "extractData ev sched (Transfer hello_transfer) [] =
     (Fulfils (Some \<lparr>ed_type = DataTransfer,
                      types = Present [\<lparr>ctd_type = str ''text/plain'', ctd_data = Text (str ''hello'')\<rparr>,
                                       \<lparr>ctd_type = str ''text/html'',
                                        ctd_data = Text (str ''<b>hello</b>'')\<rparr>],
                      items = Present [], files = Present []\<rparr>), [])"
  by (simp add: extractData_def extract_transfer_def hello_transfer_def hello_data_def str_def)

lemma two_types_item_extracted_delayed:
  "extractData ev [1, 0] (Item two_types_item) [] =
     (Fulfils (Some \<lparr>ed_type = ClipboardItem,
                      types = Present [\<lparr>ctd_type = str ''text/plain'', ctd_data = Text (str ''hello'')\<rparr>,
                                       \<lparr>ctd_type = str ''image/png'',
                                        ctd_data = File \<lparr>fi_name = None, fi_size = 68,
                                                         fi_type = str ''image/png'', fi_url = 0\<rparr>\<rparr>],
                      items = Absent, files = Absent\<rparr>), [png_blob])"
  by (simp add: extractData_def extract_item_def two_types_item_def fetch_type_def
      text_and_image_def blob_content_def text_blob_def png_blob_def file_info_def
      createObjectURL_def str_def)

lemma two_types_item_extracted_in_order:
  "extractData ev [0, 1] (Item two_types_item) [] = extractData ev [1, 0] (Item two_types_item) []"
  by (simp add: extractData_def extract_item_def two_types_item_def fetch_type_def
      text_and_image_def blob_content_def text_blob_def png_blob_def file_info_def
      createObjectURL_def str_def)

lemma one_failing_item_extracted:
  "extractData ev [0, 1] (Item one_failing_item) [] = (Rejects (Error ''NotFoundError''), [])"
  by (simp add: extractData_def extract_item_def one_failing_item_def fetch_type_def
      text_only_def blob_content_def text_blob_def str_def)

subsection \<open>One step of \<open>Promise.all\<close>\<close>

lemma fulfilledE: "fulfilled p \<Longrightarrow> \<exists>x. p = Fulfils x"
  by (cases p) simp_all

lemma rejectedE: "rejected p \<Longrightarrow> \<exists>e. p = Rejects e"
  by (cases p) simp_all

lemma promise_all_skip:
  assumes "\<not> list_all (\<lambda>s. s \<noteq> None) slots" and "length slots \<le> i \<or> slots ! i \<noteq> None"
  shows "promise_all c (i # sched) slots st = promise_all c sched slots st"
  using assms by (simp only: promise_all.simps if_True if_False)

lemma promise_all_step:
  assumes "\<not> list_all (\<lambda>s. s \<noteq> None) slots" and "i < length slots" and "slots ! i = None"
  shows "promise_all c (i # sched) slots st =
           (case fetch_type c (ci_types c ! i) st of
              (Rejects e, st') \<Rightarrow> (Rejects e, st')
            | (Hangs, st') \<Rightarrow> promise_all c sched slots st'
            | (Fulfils v, st') \<Rightarrow> promise_all c sched (slots[i := Some v]) st')"
proof -
  have "\<not> (length slots \<le> i \<or> slots ! i \<noteq> None)" using assms(2,3) by simp
  with assms(1) show ?thesis by (simp only: promise_all.simps if_False)
qed

lemma fetch_type_succeeds:
  assumes "fetch_succeeds c (ci_types c ! i)"
  shows "\<exists>v st'. fetch_type c (ci_types c ! i) st = (Fulfils v, st') \<and> built_from c i v"
proof -
  from assms obtain b where b: "getType c (ci_types c ! i) = Fulfils b"
    and tx: "prefix (str ''text/'') (blob_type b) \<longrightarrow> fulfilled (blob_text b)"
    by (cases "getType c (ci_types c ! i)") (simp_all add: fetch_succeeds_def)
  obtain d st' where d: "blob_content b st = (Fulfils d, st')"
  proof (cases "prefix (str ''text/'') (blob_type b)")
    case True
    with tx obtain s where "blob_text b = Fulfils s" using fulfilledE by blast
    with True that show ?thesis by (simp add: blob_content_def)
  next
    case False
    with that show ?thesis by (cases "file_info b st") (simp add: blob_content_def)
  qed
  have "fetch_type c (ci_types c ! i) st = (Fulfils \<lparr>ctd_type = ci_types c ! i, ctd_data = d\<rparr>, st')"
    using b d by (simp add: fetch_type_def)
  moreover have "built_from c i \<lparr>ctd_type = ci_types c ! i, ctd_data = d\<rparr>"
    unfolding built_from_def using b d by (metis ClipboardTypeData.select_convs(1,2) fst_conv)
  ultimately show ?thesis by blast
qed

lemma fetch_type_rejects:
  assumes "fetch_rejects c t"
  shows "\<exists>e. fetch_type c t st = (Rejects e, st)"
proof (cases "getType c t")
  case (Fulfils b)
  with assms have p: "prefix (str ''text/'') (blob_type b)" and r: "rejected (blob_text b)"
    by (simp_all add: fetch_rejects_def)
  from r obtain e where "blob_text b = Rejects e" using rejectedE by blast
  with p have "blob_content b st = (Rejects e, st)" by (simp add: blob_content_def)
  with Fulfils show ?thesis by (simp add: fetch_type_def)
next
  case (Rejects e)
  then show ?thesis by (simp add: fetch_type_def)
next
  case Hangs
  with assms show ?thesis by (simp add: fetch_rejects_def)
qed

subsection \<open>\<open>Promise.all\<close> joins by position\<close>

text \<open>
  The invariant of the run: the pending callbacks are those whose slot is empty, and a
  filled slot holds the representation of its own index.
\<close>

lemma promise_all_joins:
  assumes "list_all (fetch_succeeds c) (ci_types c)"
    and "length slots = length (ci_types c)"
    and "distinct sched"
    and "set sched = {i. i < length slots \<and> slots ! i = None}"
    and "\<forall>i < length slots. \<forall>v. slots ! i = Some v \<longrightarrow> built_from c i v"
  shows "\<exists>ts st'. promise_all c sched slots st = (Fulfils ts, st') \<and> length ts = length (ci_types c)
            \<and> (\<forall>i < length (ci_types c). built_from c i (ts ! i))"
  using assms(2-)
proof (induction sched arbitrary: slots st)
  case Nil
  then have nn: "\<forall>i < length slots. slots ! i \<noteq> None" by auto
  then have full: "list_all (\<lambda>s. s \<noteq> None) slots" by (simp add: list_all_length)
  have "\<forall>i < length slots. built_from c i (map the slots ! i)"
    using Nil.prems(4) nn by auto
  with full Nil.prems(1) show ?case by simp
next
  case (Cons i sched)
  from Cons.prems(3) have i: "i < length slots" "slots ! i = None" by auto
  then have notfull: "\<not> list_all (\<lambda>s. s \<noteq> None) slots" by (auto simp: list_all_length)
  have "fetch_succeeds c (ci_types c ! i)"
    using assms(1) i(1) Cons.prems(1) by (simp add: list_all_length)
  from fetch_type_succeeds[OF this, of st]
  obtain v st' where f: "fetch_type c (ci_types c ! i) st = (Fulfils v, st')" and bf: "built_from c i v"
    by blast
  have step: "promise_all c (i # sched) slots st = promise_all c sched (slots[i := Some v]) st'"
    using promise_all_step[OF notfull i, of c sched st] f by simp
  have d: "distinct sched" and ni: "i \<notin> set sched" using Cons.prems(2) by simp_all
  have s: "set sched = {j. j < length (slots[i := Some v]) \<and> slots[i := Some v] ! j = None}"
  proof (rule set_eqI)
    fix j
    show "j \<in> set sched \<longleftrightarrow> j \<in> {j. j < length (slots[i := Some v]) \<and> slots[i := Some v] ! j = None}"
    proof (cases "j = i")
      case True
      with ni i show ?thesis by simp
    next
      case False
      have "j \<in> set (i # sched) \<longleftrightarrow> j < length slots \<and> slots ! j = None"
        using Cons.prems(3) by blast
      with False show ?thesis by simp
    qed
  qed
  have b: "\<forall>j < length (slots[i := Some v]). \<forall>w. slots[i := Some v] ! j = Some w \<longrightarrow> built_from c j w"
  proof (intro allI impI)
    fix j w assume "j < length (slots[i := Some v])" "slots[i := Some v] ! j = Some w"
    then show "built_from c j w"
      using Cons.prems(4) bf i(1) by (cases "j = i") simp_all
  qed
  have l: "length (slots[i := Some v]) = length (ci_types c)" using Cons.prems(1) by simp
  from Cons.IH[OF l d s b, of st'] step
  show ?case by simp
qed

text \<open>A rejecting callback that is still pending when its turn comes rejects the whole.\<close>

lemma promise_all_rejects:
  assumes "fetch_rejects c (ci_types c ! j)"
    and "j \<in> set sched" and "j < length slots" and "slots ! j = None"
  shows "\<exists>e st'. promise_all c sched slots st = (Rejects e, st')"
  using assms(2-)
proof (induction sched arbitrary: slots st)
  case Nil
  then show ?case by simp
next
  case (Cons i sched)
  have notfull: "\<not> list_all (\<lambda>s. s \<noteq> None) slots"
    using Cons.prems(2,3) by (auto simp: list_all_length)
  show ?case
  proof (cases "i = j")
    case True
    from fetch_type_rejects[OF assms(1), of st] obtain e
      where "fetch_type c (ci_types c ! j) st = (Rejects e, st)" by blast
    with True promise_all_step[OF notfull Cons.prems(2,3), of c sched st] show ?thesis by simp
  next
    case False
    with Cons.prems(1) have j: "j \<in> set sched" by simp
    show ?thesis
    proof (cases "length slots \<le> i \<or> slots ! i \<noteq> None")
      case True
      from promise_all_skip[OF notfull True] Cons.IH[OF j Cons.prems(2,3), of st]
      show ?thesis by simp
    next
      case pending: False
      then have i: "i < length slots" "slots ! i = None" by simp_all
      note step = promise_all_step[OF notfull i, of c sched st]
      obtain r st' where f: "fetch_type c (ci_types c ! i) st = (r, st')"
        by (cases "fetch_type c (ci_types c ! i) st")
      show ?thesis
      proof (cases r)
        case (Fulfils v)
        have "promise_all c (i # sched) slots st = promise_all c sched (slots[i := Some v]) st'"
          using step f Fulfils by simp
        moreover have "j < length (slots[i := Some v])" "slots[i := Some v] ! j = None"
          using Cons.prems(2,3) False by simp_all
        ultimately show ?thesis using Cons.IH[OF j, of "slots[i := Some v]" st'] by simp
      next
        case (Rejects e)
        with step f show ?thesis by simp
      next
        case Hangs
        with step f
        have "promise_all c (i # sched) slots st = promise_all c sched slots st'" by simp
        with Cons.IH[OF j Cons.prems(2,3), of st'] show ?thesis by simp
      qed
    qed
  qed
qed

subsection \<open>One output per advertised input\<close>

lemma populated_Present: "populated (Present xs) \<longleftrightarrow> xs \<noteq> []"
  by (cases xs) simp_all

lemma extract_items_Nil: "extract_items l st = ([], st') \<longleftrightarrow> l = [] \<and> st' = st"
  by (cases l) (auto split: prod.splits)

lemma extract_files_Nil: "extract_files l st = ([], st') \<longleftrightarrow> l = [] \<and> st' = st"
  by (cases l) (auto split: prod.splits)

lemma extract_transfer_populated:
  assumes "extract_transfer d st = (e, st')"
  shows "some_field_populated e \<longleftrightarrow> advertises (Transfer d)"
proof -
  obtain its st1 where i: "(case dt_items d of
                             Some l \<Rightarrow> (let (out, s) = extract_items l st in (Present out, s))
                           | None \<Rightarrow> (Null, st)) = (its, st1)"
    by (cases "case dt_items d of
                 Some l \<Rightarrow> (let (out, s) = extract_items l st in (Present out, s))
               | None \<Rightarrow> (Null, st)")
  obtain fs st2 where f: "(case dt_files d of
                             Some l \<Rightarrow> (let (out, s) = extract_files l st1 in (Present out, s))
                           | None \<Rightarrow> (Null, st1)) = (fs, st2)"
    by (cases "case dt_files d of
                 Some l \<Rightarrow> (let (out, s) = extract_files l st1 in (Present out, s))
               | None \<Rightarrow> (Null, st1)")
  from assms i f
  have e: "types e = Present (map (\<lambda>t. \<lparr>ctd_type = t, ctd_data = Text (getData d t)\<rparr>) (dt_types d))"
    "items e = its" "files e = fs"
    by (auto simp: extract_transfer_def)
  have pi: "populated its \<longleftrightarrow> (case dt_items d of Some l \<Rightarrow> l \<noteq> [] | None \<Rightarrow> False)"
    using i by (auto simp: populated_Present extract_items_Nil split: option.splits prod.splits)
  have pf: "populated fs \<longleftrightarrow> (case dt_files d of Some l \<Rightarrow> l \<noteq> [] | None \<Rightarrow> False)"
    using f by (auto simp: populated_Present extract_files_Nil split: option.splits prod.splits)
  from e pi pf show ?thesis by (simp add: some_field_populated_def populated_Present)
qed

lemma promise_all_length:
  "promise_all c sched slots st = (Fulfils ts, st') \<Longrightarrow> length ts = length slots"
proof (induction c sched slots st rule: promise_all.induct)
  case (1 c slots st)
  then show ?case by (auto split: if_splits)
next
  case (2 c i sched slots st)
  show ?case
  proof (cases "list_all (\<lambda>s. s \<noteq> None) slots")
    case True
    with 2(4) show ?thesis by auto
  next
    case full: False
    show ?thesis
    proof (cases "length slots \<le> i \<or> slots ! i \<noteq> None")
      case True
      with full 2(1) 2(4) show ?thesis by simp
    next
      case False
      obtain r st1 where f: "fetch_type c (ci_types c ! i) st = (r, st1)"
        by (cases "fetch_type c (ci_types c ! i) st")
      show ?thesis
      proof (cases r)
        case (Fulfils v)
        with full False f 2(2)[OF full False f[symmetric] Fulfils] 2(4) show ?thesis by simp
      next
        case (Rejects e)
        with full False f 2(4) show ?thesis by simp
      next
        case Hangs
        with full False f 2(3)[OF full False f[symmetric] Hangs] 2(4) show ?thesis by simp
      qed
    qed
  qed
qed

subsection \<open>The claims about \<open>extractData\<close>\<close>

text \<open>
  Claim C2, as stated: when the sub-fetch of one advertised type fails and the others
  succeed, \<open>extractData\<close> still returns an entry, from which only the failing
  representation is missing. It does not: with \<open>text/plain\<close> fetched and \<open>text/html\<close>
  rejecting, the promise of \<open>extractData\<close> rejects and no entry is returned.
\<close>

theorem extractData_one_failing_fetch_aborts:
  "fetch_succeeds one_failing_item (ci_types one_failing_item ! 0) \<and>
   fetch_rejects one_failing_item (ci_types one_failing_item ! 1) \<and>
   extractData modern_env [0, 1] (Item one_failing_item) [] = (Rejects (Error ''NotFoundError''), [])"
  using one_failing_item_extracted[of modern_env]
  by (simp add: fetch_succeeds_def fetch_rejects_def one_failing_item_def text_only_def
      text_blob_def str_def)

text \<open>
  Claim C2, amended: \<open>extractData\<close> has no handler around a sub-fetch. Whenever the
  sub-fetch of an advertised type rejects and that settlement takes place, the promise of
  \<open>extractData\<close> rejects: the whole entry is aborted, whatever the other sub-fetches do.
\<close>

theorem extractData_rejects_when_a_fetch_rejects:
  assumes "j < length (ci_types c)" and "fetch_rejects c (ci_types c ! j)" and "j \<in> set sched"
  shows "\<exists>e st'. extractData ev sched (Item c) st = (Rejects e, st')"
proof -
  from promise_all_rejects[OF assms(2,3), of "replicate (length (ci_types c)) None" st] assms(1)
  obtain e st' where "promise_all c sched (replicate (length (ci_types c)) None) st = (Rejects e, st')"
    by auto
  then show ?thesis by (simp add: extractData_def extract_item_def)
qed

theorem extractData_rejects_when_a_fetch_rejects_witness:
  "1 < length (ci_types one_failing_item) \<and>
   fetch_rejects one_failing_item (ci_types one_failing_item ! 1) \<and>
   1 \<in> set [1, 0 :: nat] \<and>
   (\<exists>e st'. extractData modern_env [1, 0] (Item one_failing_item) [] = (Rejects e, st'))"
proof -
  have a: "1 < length (ci_types one_failing_item)" by (simp add: one_failing_item_def)
  have b: "fetch_rejects one_failing_item (ci_types one_failing_item ! 1)"
    by (simp add: fetch_rejects_def one_failing_item_def text_only_def str_def)
  have c: "1 \<in> set [1, 0 :: nat]" by simp
  from extractData_rejects_when_a_fetch_rejects[OF a b c, of modern_env "[]"] a b c show ?thesis by blast
qed

text \<open>
  Claim C4, as stated: every entry that \<open>extractData\<close> returns has a populated field. It
  does not hold for a \<open>DataTransfer\<close> that advertises no type, no item and no file: the
  entry is returned with three empty sequences.
\<close>

theorem extractData_empty_transfer_unpopulated:
  "extractData modern_env [] (Transfer empty_transfer) [] =
     (Fulfils (Some \<lparr>ed_type = DataTransfer, types = Present [], items = Present [],
                      files = Present []\<rparr>), []) \<and>
   \<not> some_field_populated \<lparr>ed_type = DataTransfer, types = Present [], items = Present [],
                            files = Present []\<rparr>"
  using empty_transfer_extracted[of modern_env "[]"] by (simp add: some_field_populated_def)

text \<open>
  Claim C4, amended: whenever \<open>extractData\<close> returns an entry, at least one of its
  \<open>types\<close>, \<open>items\<close> and \<open>files\<close> is present and non-empty exactly when the input
  advertises at least one type, item or file. So the entry of every recognised input
  that advertises something has a populated field; the one input kind that is left out
  is the one that advertises nothing, whose entry has none.
\<close>

theorem extractData_entry_populated:
  assumes "extractData ev sched data st = (Fulfils (Some e), st')"
  shows "some_field_populated e \<longleftrightarrow> advertises data"
proof (cases data)
  case (Transfer d)
  with assms have "extract_transfer d st = (e, st')"
    by (auto simp: extractData_def split: prod.splits)
  from extract_transfer_populated[OF this] Transfer show ?thesis by simp
next
  case (Item c)
  with assms obtain ts where p: "promise_all c sched (replicate (length (ci_types c)) None) st = (Fulfils ts, st')"
    and e: "e = \<lparr>ed_type = ClipboardItem, types = Present ts, items = Absent, files = Absent\<rparr>"
    by (auto simp: extractData_def extract_item_def split: prod.splits promise.splits)
  from promise_all_length[OF p] have "ts = [] \<longleftrightarrow> ci_types c = []"
    by (metis length_0_conv length_replicate)
  with e Item show ?thesis by (simp add: some_field_populated_def populated_Present)
qed (use assms in \<open>simp_all add: extractData_def split: if_splits\<close>)

theorem extractData_entry_populated_witness:
  "extractData modern_env [1, 0] (Item two_types_item) [] =
     (Fulfils (Some \<lparr>ed_type = ClipboardItem,
                      types = Present [\<lparr>ctd_type = str ''text/plain'', ctd_data = Text (str ''hello'')\<rparr>,
                                       \<lparr>ctd_type = str ''image/png'',
                                        ctd_data = File \<lparr>fi_name = None, fi_size = 68,
                                                         fi_type = str ''image/png'', fi_url = 0\<rparr>\<rparr>],
                      items = Absent, files = Absent\<rparr>), [png_blob]) \<and>
   advertises (Item two_types_item) \<and>
   some_field_populated
     \<lparr>ed_type = ClipboardItem,
      types = Present [\<lparr>ctd_type = str ''text/plain'', ctd_data = Text (str ''hello'')\<rparr>,
                       \<lparr>ctd_type = str ''image/png'',
                        ctd_data = File \<lparr>fi_name = None, fi_size = 68,
                                         fi_type = str ''image/png'', fi_url = 0\<rparr>\<rparr>],
      items = Absent, files = Absent\<rparr>"
proof -
  have a: "advertises (Item two_types_item)" by (simp add: two_types_item_def)
  from extractData_entry_populated[OF two_types_item_extracted_delayed[of modern_env]] a
    two_types_item_extracted_delayed[of modern_env]
  show ?thesis by blast
qed

text \<open>
  Claim C5: for a \<open>ClipboardItem\<close> whose sub-fetches all succeed, and for every order
  \<open>sched\<close> in which they complete (a permutation of the positions), the \<open>types\<close> of the
  entry has one element per advertised type, and its \<open>i\<close>-th element is the
  representation of the \<open>i\<close>-th advertised type: enumeration order, not completion
  order.
\<close>

theorem extractData_item_types_in_enumeration_order:
  assumes "list_all (fetch_succeeds c) (ci_types c)"
    and "distinct sched" and "set sched = {0..<length (ci_types c)}"
  shows "\<exists>ts st'. extractData ev sched (Item c) st =
            (Fulfils (Some \<lparr>ed_type = ClipboardItem, types = Present ts,
                             items = Absent, files = Absent\<rparr>), st')
          \<and> length ts = length (ci_types c)
          \<and> (\<forall>i < length (ci_types c). built_from c i (ts ! i))"
proof -
  define n where "n = length (ci_types c)"
  define slots where "slots = replicate n (None :: ClipboardTypeData option)"
  have "set sched = {i. i < n}" using assms(3) by (simp add: n_def atLeast0LessThan lessThan_def)
  moreover have "\<And>i. i < n \<longleftrightarrow> i < length slots \<and> slots ! i = None"
    by (simp add: slots_def conj_cong)
  ultimately have s: "set sched = {i. i < length slots \<and> slots ! i = None}" by simp
  have l: "length slots = length (ci_types c)" by (simp add: slots_def n_def)
  have b: "\<forall>i < length slots. \<forall>v. slots ! i = Some v \<longrightarrow> built_from c i v"
    by (simp add: slots_def)
  from promise_all_joins[OF assms(1) l assms(2) s b, of st]
  obtain ts st' where p: "promise_all c sched slots st = (Fulfils ts, st')"
    and r: "length ts = length (ci_types c)" "\<forall>i < length (ci_types c). built_from c i (ts ! i)"
    by blast
  have "extract_item c sched st =
          (Fulfils \<lparr>ed_type = ClipboardItem, types = Present ts, items = Absent, files = Absent\<rparr>, st')"
    using p by (simp add: extract_item_def slots_def n_def)
  then have "extractData ev sched (Item c) st =
          (Fulfils (Some \<lparr>ed_type = ClipboardItem, types = Present ts, items = Absent,
                           files = Absent\<rparr>), st')"
    by (simp add: extractData_def)
  with r show ?thesis by blast
qed

theorem extractData_item_types_in_enumeration_order_witness:
  "list_all (fetch_succeeds two_types_item) (ci_types two_types_item) \<and>
   distinct [1, 0 :: nat] \<and> set [1, 0 :: nat] = {0..<length (ci_types two_types_item)} \<and>
   (\<exists>ts st'. extractData modern_env [1, 0] (Item two_types_item) [] =
            (Fulfils (Some \<lparr>ed_type = ClipboardItem, types = Present ts,
                             items = Absent, files = Absent\<rparr>), st')
          \<and> length ts = length (ci_types two_types_item)
          \<and> (\<forall>i < length (ci_types two_types_item). built_from two_types_item i (ts ! i)))"
proof -
  have a: "list_all (fetch_succeeds two_types_item) (ci_types two_types_item)"
    by (simp add: fetch_succeeds_def two_types_item_def text_and_image_def text_blob_def
        png_blob_def str_def)
  have b: "distinct [1, 0 :: nat]" by simp
  have c: "set [1, 0 :: nat] = {0..<length (ci_types two_types_item)}"
    by (auto simp: two_types_item_def)
  from extractData_item_types_in_enumeration_order[OF a b c, of modern_env "[]"] a b c
  show ?thesis by blast
qed

text \<open>
  Claim C7: for a \<open>DataTransfer\<close> that advertises the types \<open>t1, ..., tn\<close>, the \<open>types\<close> of
  the entry has exactly \<open>n\<close> elements, and the \<open>i\<close>-th pairs \<open>ti\<close> with the string that
  \<open>getData\<close> gives for \<open>ti\<close>.
\<close>

theorem extractData_transfer_types:
  "\<exists>e st'. extractData ev sched (Transfer d) st = (Fulfils (Some e), st') \<and> ed_type e = DataTransfer \<and>
     (\<exists>ts. types e = Present ts \<and> length ts = length (dt_types d) \<and>
        (\<forall>i < length (dt_types d).
           ts ! i = \<lparr>ctd_type = dt_types d ! i, ctd_data = Text (getData d (dt_types d ! i))\<rparr>))"
proof -
  obtain e st' where x: "extract_transfer d st = (e, st')" by (cases "extract_transfer d st")
  then have "types e = Present (map (\<lambda>t. \<lparr>ctd_type = t, ctd_data = Text (getData d t)\<rparr>) (dt_types d))"
    and "ed_type e = DataTransfer"
    by (auto simp: extract_transfer_def split: prod.splits option.splits)
  moreover have "extractData ev sched (Transfer d) st = (Fulfils (Some e), st')"
    using x by (simp add: extractData_def)
  ultimately show ?thesis by simp
qed

theorem extractData_transfer_types_witness:
  "\<exists>e st'. extractData modern_env [] (Transfer hello_transfer) [] = (Fulfils (Some e), st') \<and>
     ed_type e = DataTransfer \<and>
     (\<exists>ts. types e = Present ts \<and> length ts = 2 \<and>
        ts ! 0 = \<lparr>ctd_type = str ''text/plain'', ctd_data = Text (str ''hello'')\<rparr> \<and>
        ts ! 1 = \<lparr>ctd_type = str ''text/html'', ctd_data = Text (str ''<b>hello</b>'')\<rparr>)"
  using extractData_transfer_types[of modern_env "[]" hello_transfer "[]"]
  by (auto simp: hello_transfer_def hello_data_def str_def)




section \<open>Properties of \<open>JSON.parse\<close> and \<open>JSON.stringify\<close>\<close>

subsection \<open>String literals\<close>

lemma hex_value_hex_digit_all: "list_all (\<lambda>n. hex_value (hex_digit n) = Some n) [0..<16]"
  by code_simp

lemma hex_value_hex_digit: "n < 16 \<Longrightarrow> hex_value (hex_digit n) = Some n"
  using hex_value_hex_digit_all by (simp add: list_all_iff)

lemma hex_digits_sum:
  fixes n :: nat
  shows "((n div 4096 * 16 + n div 256 mod 16) * 16 + n div 16 mod 16) * 16 + n mod 16 = n"
proof -
  have a: "n div 256 = n div 16 div 16" and b: "n div 4096 = n div 256 div 16"
    by (simp_all add: div_mult2_eq)
  have "n div 4096 * 16 + n div 256 mod 16 = n div 256"
    unfolding b by (rule div_mult_mod_eq)
  moreover have "n div 256 * 16 + n div 16 mod 16 = n div 16"
    unfolding a by (rule div_mult_mod_eq)
  moreover have "n div 16 * 16 + n mod 16 = n" by (rule div_mult_mod_eq)
  ultimately show ?thesis by simp
qed

lemma unat_lt_65536: "unat (c :: 16 word) < 65536"
  using unsigned_less[of c, where 'a = nat] by simp

lemma hex4_unicode_escape:
  "hex4 (hex_digit (unat c div 4096)) (hex_digit (unat c div 256 mod 16))
        (hex_digit (unat c div 16 mod 16)) (hex_digit (unat c mod 16)) = Some c"
proof -
  have a: "unat c div 4096 < 16" using unat_lt_65536[of c] by simp
  have "hex4 (hex_digit (unat c div 4096)) (hex_digit (unat c div 256 mod 16))
        (hex_digit (unat c div 16 mod 16)) (hex_digit (unat c mod 16)) =
        Some (of_nat (((unat c div 4096 * 16 + unat c div 256 mod 16) * 16 + unat c div 16 mod 16) * 16 + unat c mod 16))"
    using a by (simp add: hex4_def hex_value_hex_digit del: of_nat_add of_nat_mult)
  also have "\<dots> = Some (of_nat (unat c))" by (simp only: hex_digits_sum)
  also have "(of_nat (unat c) :: 16 word) = c" by simp
  finally show ?thesis .
qed

lemma parse_chars_plain:
  "c \<noteq> 0x22 \<Longrightarrow> c \<noteq> 0x5C \<Longrightarrow> \<not> c < 0x20 \<Longrightarrow>
   parse_chars (c # s) = map_option (\<lambda>(k, r). (c # k, r)) (parse_chars s)"
  by simp

lemma parse_chars_short:
  "unescape e = Some u \<Longrightarrow> e \<noteq> 0x75 \<Longrightarrow>
   parse_chars (0x5C # e # s) = map_option (\<lambda>(k, r). (u # k, r)) (parse_chars s)"
  by simp

lemma parse_chars_escape:
  "parse_chars (unicode_escape c @ s) = map_option (\<lambda>(k, r). (c # k, r)) (parse_chars s)"
  by (simp add: unicode_escape_def hex4_unicode_escape)

lemma surrogate_plain:
  assumes "is_high_surrogate c \<or> is_low_surrogate c"
  shows "c \<noteq> 0x22" "c \<noteq> 0x5C" "\<not> c < 0x20"
  using assms
  by (auto simp: is_high_surrogate_def is_low_surrogate_def word_less_nat_alt word_le_nat_alt)

lemma parse_chars_quote_chars: "parse_chars (quote_chars s @ 0x22 # rest) = Some (s, rest)"
proof (induction s rule: length_induct)
  case (1 s)
  show ?case
  proof (cases s)
    case Nil
    then show ?thesis by simp
  next
    case (Cons c cs)
    have ih: "parse_chars (quote_chars cs @ 0x22 # rest) = Some (cs, rest)"
      using 1 Cons by simp
    have esc: "parse_chars (unicode_escape c @ quote_chars cs @ 0x22 # rest) = Some (c # cs, rest)"
      by (simp add: parse_chars_escape ih)
    have short: "\<And>e. unescape e = Some c \<Longrightarrow> e \<noteq> 0x75 \<Longrightarrow>
        parse_chars ([0x5C, e] @ quote_chars cs @ 0x22 # rest) = Some (c # cs, rest)"
      using parse_chars_short ih by simp
    consider (b) "c = 0x08" | (t) "c = 0x09" | (n) "c = 0x0A" | (f) "c = 0x0C" | (r) "c = 0x0D"
      | (q) "c = 0x22" | (bs) "c = 0x5C"
      | (ctl) "c \<noteq> 0x08" "c \<noteq> 0x09" "c \<noteq> 0x0A" "c \<noteq> 0x0C" "c \<noteq> 0x0D" "c \<noteq> 0x22" "c \<noteq> 0x5C" "c < 0x20"
      | (hi) "c \<noteq> 0x08" "c \<noteq> 0x09" "c \<noteq> 0x0A" "c \<noteq> 0x0C" "c \<noteq> 0x0D" "c \<noteq> 0x22" "c \<noteq> 0x5C" "\<not> c < 0x20"
          "is_high_surrogate c"
      | (lo) "c \<noteq> 0x08" "c \<noteq> 0x09" "c \<noteq> 0x0A" "c \<noteq> 0x0C" "c \<noteq> 0x0D" "c \<noteq> 0x22" "c \<noteq> 0x5C" "\<not> c < 0x20"
          "\<not> is_high_surrogate c" "is_low_surrogate c"
      | (plain) "c \<noteq> 0x08" "c \<noteq> 0x09" "c \<noteq> 0x0A" "c \<noteq> 0x0C" "c \<noteq> 0x0D" "c \<noteq> 0x22" "c \<noteq> 0x5C" "\<not> c < 0x20"
          "\<not> is_high_surrogate c" "\<not> is_low_surrogate c"
      by blast
    then show ?thesis
    proof cases
      case b
      have "quote_chars (c # cs) = [0x5C, 0x62] @ quote_chars cs" using b by simp
      moreover have "unescape 0x62 = Some c" using b by (simp add: unescape_def)
      ultimately show ?thesis using short[of "0x62"] Cons by simp
    next
      case t
      have "quote_chars (c # cs) = [0x5C, 0x74] @ quote_chars cs" using t by simp
      moreover have "unescape 0x74 = Some c" using t by (simp add: unescape_def)
      ultimately show ?thesis using short[of "0x74"] Cons by simp
    next
      case n
      have "quote_chars (c # cs) = [0x5C, 0x6E] @ quote_chars cs" using n by simp
      moreover have "unescape 0x6E = Some c" using n by (simp add: unescape_def)
      ultimately show ?thesis using short[of "0x6E"] Cons by simp
    next
      case f
      have "quote_chars (c # cs) = [0x5C, 0x66] @ quote_chars cs" using f by simp
      moreover have "unescape 0x66 = Some c" using f by (simp add: unescape_def)
      ultimately show ?thesis using short[of "0x66"] Cons by simp
    next
      case r
      have "quote_chars (c # cs) = [0x5C, 0x72] @ quote_chars cs" using r by simp
      moreover have "unescape 0x72 = Some c" using r by (simp add: unescape_def)
      ultimately show ?thesis using short[of "0x72"] Cons by simp
    next
      case q
      have "quote_chars (c # cs) = [0x5C, 0x22] @ quote_chars cs" using q by simp
      moreover have "unescape 0x22 = Some c" using q by (simp add: unescape_def)
      ultimately show ?thesis using short[of "0x22"] Cons by simp
    next
      case bs
      have "quote_chars (c # cs) = [0x5C, 0x5C] @ quote_chars cs" using bs by simp
      moreover have "unescape 0x5C = Some c" using bs by (simp add: unescape_def)
      ultimately show ?thesis using short[of "0x5C"] Cons by simp
    next
      case ctl
      then have "quote_chars (c # cs) = unicode_escape c @ quote_chars cs" by simp
      with esc Cons show ?thesis by simp
    next
      case hi
      show ?thesis
      proof (cases cs)
        case Nil
        with hi have "quote_chars (c # cs) = unicode_escape c @ quote_chars cs" by simp
        with esc Cons show ?thesis by simp
      next
        case ds: (Cons d ds)
        show ?thesis
        proof (cases "is_low_surrogate d")
          case True
          with hi ds have qc: "quote_chars (c # cs) = c # d # quote_chars ds" by simp
          have "parse_chars (quote_chars ds @ 0x22 # rest) = Some (ds, rest)"
            using 1 Cons ds by simp
          then have "parse_chars (d # quote_chars ds @ 0x22 # rest) = Some (d # ds, rest)"
            using surrogate_plain[of d] True by (simp del: parse_chars.simps add: parse_chars_plain)
          then have "parse_chars (c # d # quote_chars ds @ 0x22 # rest) = Some (c # d # ds, rest)"
            using hi by (simp del: parse_chars.simps add: parse_chars_plain)
          with qc Cons ds show ?thesis by simp
        next
          case False
          with hi ds have "quote_chars (c # cs) = unicode_escape c @ quote_chars cs" by simp
          with esc Cons show ?thesis by simp
        qed
      qed
    next
      case lo
      then have "quote_chars (c # cs) = unicode_escape c @ quote_chars cs" by simp
      with esc Cons show ?thesis by simp
    next
      case plain
      then have "quote_chars (c # cs) = c # quote_chars cs" by simp
      moreover have "parse_chars (c # quote_chars cs @ 0x22 # rest) = Some (c # cs, rest)"
        using plain ih by (simp del: parse_chars.simps add: parse_chars_plain)
      ultimately show ?thesis using Cons by simp
    qed
  qed
qed

subsection \<open>Number tokens\<close>

lemma digits_append:
  assumes "dropWhile is_digit s \<noteq> [] \<or> \<not> next_is is_digit rest"
  shows "takeWhile is_digit (s @ rest) = takeWhile is_digit s"
    and "dropWhile is_digit (s @ rest) = dropWhile is_digit s @ rest"
proof -
  show "takeWhile is_digit (s @ rest) = takeWhile is_digit s"
  proof (cases "dropWhile is_digit s = []")
    case False
    then obtain x where "x \<in> set s" "\<not> is_digit x" by (auto simp: dropWhile_eq_Nil_conv)
    then show ?thesis by (simp add: takeWhile_append1)
  next
    case True
    then have all: "\<forall>x \<in> set s. is_digit x" by (simp add: dropWhile_eq_Nil_conv)
    from True assms have "\<not> next_is is_digit rest" by simp
    then have tr: "takeWhile is_digit rest = []" by (cases rest) (simp_all add: next_is_def)
    have "takeWhile is_digit (s @ rest) = s @ takeWhile is_digit rest"
      using all by (simp add: takeWhile_append2)
    also have "\<dots> = s" by (simp add: tr)
    also have "s = takeWhile is_digit s"
      by (rule sym) (simp add: takeWhile_eq_all_conv all)
    finally show ?thesis .
  qed
  show "dropWhile is_digit (s @ rest) = dropWhile is_digit s @ rest"
  proof (cases "dropWhile is_digit s = []")
    case False
    then obtain x where "x \<in> set s" "\<not> is_digit x" by (auto simp: dropWhile_eq_Nil_conv)
    then show ?thesis by (simp add: dropWhile_append1)
  next
    case True
    then have all: "\<forall>x \<in> set s. is_digit x" by (simp add: dropWhile_eq_Nil_conv)
    from True assms have "\<not> next_is is_digit rest" by simp
    then have "dropWhile is_digit rest = rest" by (cases rest) (simp_all add: next_is_def)
    with all True show ?thesis by (simp add: dropWhile_append2)
  qed
qed

lemma lex_digits_append:
  assumes "lex_digits a = Some (ds, r)" and "r \<noteq> [] \<or> \<not> next_is is_digit rest"
  shows "lex_digits (a @ rest) = Some (ds, r @ rest)"
proof -
  from assms(1) have r: "r = dropWhile is_digit a" and ds: "takeWhile is_digit a = ds" "ds \<noteq> []"
    by (auto simp: lex_digits_def split: list.splits)
  from assms(2) r have "dropWhile is_digit a \<noteq> [] \<or> \<not> next_is is_digit rest" by simp
  from digits_append[OF this] r ds show ?thesis
    by (cases ds) (simp_all add: lex_digits_def)
qed

lemma lex_int_append:
  assumes "lex_int a = Some (i, r)" and "r \<noteq> [] \<or> \<not> next_is is_digit rest"
  shows "lex_int (a @ rest) = Some (i, r @ rest)"
proof -
  from assms(1) obtain c cs where a: "a = c # cs" by (cases a) (simp_all add: lex_int_def)
  show ?thesis
  proof (cases "c = 0x30")
    case True
    with assms(1) a show ?thesis by (simp add: lex_int_def)
  next
    case False
    with assms(1) a have d: "is_digit c" and i: "i = c # takeWhile is_digit cs"
      and r: "r = dropWhile is_digit cs"
      by (simp_all add: lex_int_def split: if_splits)
    from assms(2) r have "dropWhile is_digit cs \<noteq> [] \<or> \<not> next_is is_digit rest" by simp
    from digits_append[OF this] False d i r a show ?thesis by (simp add: lex_int_def)
  qed
qed

lemma lex_frac_append:
  assumes "lex_frac a = Some (f, r)"
    and "r \<noteq> [] \<or> (\<not> next_is is_digit rest \<and> \<not> next_is (\<lambda>c. c = 0x2E) rest)"
  shows "lex_frac (a @ rest) = Some (f, r @ rest)"
proof (cases a)
  case Nil
  with assms(1) have "f = []" "r = []" by (simp_all add: lex_frac_def)
  with assms(2) Nil show ?thesis by (cases rest) (simp_all add: lex_frac_def next_is_def)
next
  case (Cons c cs)
  show ?thesis
  proof (cases "c = 0x2E")
    case True
    with assms(1) Cons obtain ds where d: "lex_digits cs = Some (ds, r)" "f = c # ds"
      by (auto simp: lex_frac_def)
    from assms(2) have "r \<noteq> [] \<or> \<not> next_is is_digit rest" by blast
    from lex_digits_append[OF d(1) this] d(2) True Cons show ?thesis by (simp add: lex_frac_def)
  next
    case False
    with assms(1) Cons have "f = []" "r = c # cs" by (auto simp: lex_frac_def)
    with False Cons show ?thesis by (simp add: lex_frac_def)
  qed
qed

lemma delimited_next:
  assumes "delimited rest"
  shows "\<not> next_is is_digit rest" and "\<not> next_is (\<lambda>c. c = 0x2E) rest"
    and "\<not> next_is (\<lambda>c. c = 0x65 \<or> c = 0x45) rest"
  using assms by (cases rest; simp add: delimited_def next_is_def)+

lemma lex_exp_append:
  assumes "lex_exp a = Some (e, r)"
    and "r \<noteq> [] \<or> (\<not> next_is is_digit rest \<and> \<not> next_is (\<lambda>c. c = 0x65 \<or> c = 0x45) rest)"
  shows "lex_exp (a @ rest) = Some (e, r @ rest)"
proof (cases a)
  case Nil
  with assms(1) have "e = []" "r = []" by (simp_all add: lex_exp_def)
  with assms(2) Nil show ?thesis by (cases rest) (simp_all add: lex_exp_def next_is_def)
next
  case (Cons c cs)
  from assms(2) have dg: "r \<noteq> [] \<or> \<not> next_is is_digit rest" by blast
  show ?thesis
  proof (cases "c = 0x65 \<or> c = 0x45")
    case True
    with assms(1) Cons obtain g gs where cs: "cs = g # gs" by (cases cs) (simp_all add: lex_exp_def)
    show ?thesis
    proof (cases "g = 0x2B \<or> g = 0x2D")
      case sign: True
      with assms(1) Cons True cs obtain ds where "lex_digits gs = Some (ds, r)" "e = c # g # ds"
        by (auto simp: lex_exp_def)
      with lex_digits_append[OF this(1) dg] True sign Cons cs show ?thesis
        by (simp add: lex_exp_def)
    next
      case False
      with assms(1) Cons True cs obtain ds where "lex_digits (g # gs) = Some (ds, r)" "e = c # ds"
        by (auto simp: lex_exp_def)
      with lex_digits_append[OF this(1) dg] True False Cons cs show ?thesis
        by (simp add: lex_exp_def)
    qed
  next
    case False
    with assms(1) Cons have "e = []" "r = c # cs" by (auto simp: lex_exp_def)
    with False Cons show ?thesis by (simp add: lex_exp_def)
  qed
qed

lemma lex_number_append:
  assumes "lex_number a = Some (lx, r)" and "r \<noteq> [] \<or> delimited rest"
  shows "lex_number (a @ rest) = Some (lx, r @ rest)"
proof -
  define sg where "sg = (case a of [] \<Rightarrow> ([], a) | c # cs \<Rightarrow> if c = 0x2D then ([c], cs) else ([], a))"
  obtain sign s0 where sg': "sg = (sign, s0)" by (cases sg)
  from assms(1) obtain i s1 f s2 e where
    i: "lex_int s0 = Some (i, s1)" and f: "lex_frac s1 = Some (f, s2)"
    and e: "lex_exp s2 = Some (e, r)" and lx: "lx = sign @ i @ f @ e"
    unfolding lex_number_def sg_def[symmetric] sg'
    by (auto split: option.splits)
  from i have "s0 \<noteq> []" by (auto simp: lex_int_def)
  then have a: "a \<noteq> []" using sg' by (auto simp: sg_def)
  have sga: "(case a @ rest of [] \<Rightarrow> ([], a @ rest) | c # cs \<Rightarrow> if c = 0x2D then ([c], cs) else ([], a @ rest))
       = (sign, s0 @ rest)"
    using a sg' by (cases a) (auto simp: sg_def split: if_splits)
  have s3: "r \<noteq> [] \<or> (\<not> next_is is_digit rest \<and> \<not> next_is (\<lambda>c. c = 0x65 \<or> c = 0x45) rest)"
    using assms(2) delimited_next[of rest] by blast
  have s2: "s2 \<noteq> [] \<or> (\<not> next_is is_digit rest \<and> \<not> next_is (\<lambda>c. c = 0x2E) rest)"
    using e assms(2) lex_exp_shorter[OF e] delimited_next[of rest] by auto
  have s1: "s1 \<noteq> [] \<or> \<not> next_is is_digit rest"
    using f s2 lex_frac_shorter[OF f] by auto
  from lex_int_append[OF i s1] lex_frac_append[OF f s2] lex_exp_append[OF e s3] lx
  show ?thesis unfolding lex_number_def sga by simp
qed

lemma number_token_append:
  "number_token lx \<Longrightarrow> delimited rest \<Longrightarrow> lex_number (lx @ rest) = Some (lx, rest)"
  using lex_number_append[of lx lx "[]" rest] by (simp add: number_token_def)

lemma number_token_first:
  assumes "number_token lx"
  shows "\<exists>c cs. lx = c # cs \<and> (c = 0x2D \<or> is_digit c)"
proof -
  from assms have l: "lex_number lx = Some (lx, [])" by (simp add: number_token_def)
  then obtain c cs where lx: "lx = c # cs" by (cases lx) (auto simp: lex_number_def lex_int_def)
  have "c = 0x2D \<or> is_digit c"
  proof (rule ccontr)
    assume "\<not> (c = 0x2D \<or> is_digit c)"
    then have "c \<noteq> 0x2D" "\<not> is_digit c" "c \<noteq> 0x30" by (auto simp: is_digit_def)
    with l lx show False by (simp add: lex_number_def lex_int_def)
  qed
  with lx show ?thesis by blast
qed

text \<open>What a lexer returns is a lexeme of its own kind.\<close>

lemma lex_digits_self:
  assumes "lex_digits s = Some (ds, r)"
  shows "lex_digits ds = Some (ds, [])" and "ds \<noteq> []" and "list_all is_digit ds"
proof -
  from assms have ds: "ds = takeWhile is_digit s" "ds \<noteq> []"
    by (auto simp: lex_digits_def split: list.splits)
  then have all: "\<forall>x \<in> set ds. is_digit x" by (auto dest: set_takeWhileD)
  then have "takeWhile is_digit ds = ds" "dropWhile is_digit ds = []"
    by (simp_all add: takeWhile_eq_all_conv)
  with ds(2) show "lex_digits ds = Some (ds, [])" by (cases ds) (simp_all add: lex_digits_def)
  show "ds \<noteq> []" by (rule ds(2))
  show "list_all is_digit ds" using all by (simp add: list_all_iff)
qed

lemma lex_int_self:
  assumes "lex_int s = Some (i, r)"
  shows "lex_int i = Some (i, [])" and "\<exists>c cs. i = c # cs \<and> is_digit c"
proof -
  from assms obtain c cs where s: "s = c # cs" by (cases s) (simp_all add: lex_int_def)
  show "lex_int i = Some (i, [])"
  proof (cases "c = 0x30")
    case True
    with assms s show ?thesis by (auto simp: lex_int_def)
  next
    case False
    with assms s have d: "is_digit c" and i: "i = c # takeWhile is_digit cs"
      by (simp_all add: lex_int_def split: if_splits)
    have "\<forall>x \<in> set (takeWhile is_digit cs). is_digit x" by (auto dest: set_takeWhileD)
    then have "takeWhile is_digit (takeWhile is_digit cs) = takeWhile is_digit cs"
      "dropWhile is_digit (takeWhile is_digit cs) = []"
      by (simp_all add: takeWhile_eq_all_conv)
    with False d i show ?thesis by (simp add: lex_int_def)
  qed
  show "\<exists>c cs. i = c # cs \<and> is_digit c"
    using assms s by (auto simp: lex_int_def is_digit_def split: if_splits)
qed

lemma lex_frac_self:
  assumes "lex_frac s = Some (f, r)"
  shows "lex_frac f = Some (f, [])" and "f = [] \<or> (\<exists>cs. f = 0x2E # cs)"
proof -
  show "lex_frac f = Some (f, [])"
  proof (cases s)
    case Nil
    with assms show ?thesis by (simp add: lex_frac_def)
  next
    case (Cons c cs)
    show ?thesis
    proof (cases "c = 0x2E")
      case True
      with assms Cons obtain ds where d: "lex_digits cs = Some (ds, r)" "f = c # ds"
        by (auto simp: lex_frac_def)
      with lex_digits_self(1)[OF d(1)] True show ?thesis by (simp add: lex_frac_def)
    next
      case False
      with assms Cons show ?thesis by (auto simp: lex_frac_def)
    qed
  qed
  show "f = [] \<or> (\<exists>cs. f = 0x2E # cs)"
    using assms by (cases s) (auto simp: lex_frac_def split: if_splits)
qed

lemma lex_exp_self:
  assumes "lex_exp s = Some (e, r)"
  shows "lex_exp e = Some (e, [])" and "e = [] \<or> (\<exists>c cs. e = c # cs \<and> (c = 0x65 \<or> c = 0x45))"
proof -
  show "lex_exp e = Some (e, [])"
  proof (cases s)
    case Nil
    with assms show ?thesis by (simp add: lex_exp_def)
  next
    case (Cons c cs)
    show ?thesis
    proof (cases "c = 0x65 \<or> c = 0x45")
      case True
      with assms Cons obtain g gs where cs: "cs = g # gs" by (cases cs) (simp_all add: lex_exp_def)
      show ?thesis
      proof (cases "g = 0x2B \<or> g = 0x2D")
        case sign: True
        with assms Cons True cs obtain ds where d: "lex_digits gs = Some (ds, r)" "e = c # g # ds"
          by (auto simp: lex_exp_def)
        with lex_digits_self(1)[OF d(1)] True sign show ?thesis by (simp add: lex_exp_def)
      next
        case False
        with assms Cons True cs obtain ds where d: "lex_digits (g # gs) = Some (ds, r)" "e = c # ds"
          by (auto simp: lex_exp_def)
        from lex_digits_self[OF d(1)] obtain x xs where ds: "ds = x # xs" "is_digit x"
          by (cases ds) auto
        then have "x \<noteq> 0x2B" "x \<noteq> 0x2D" by (auto simp: is_digit_def)
        with lex_digits_self(1)[OF d(1)] d(2) True ds show ?thesis by (simp add: lex_exp_def)
      qed
    next
      case False
      with assms Cons show ?thesis by (auto simp: lex_exp_def)
    qed
  qed
  show "e = [] \<or> (\<exists>c cs. e = c # cs \<and> (c = 0x65 \<or> c = 0x45))"
    using assms by (cases s) (auto simp: lex_exp_def split: if_splits list.splits)
qed

lemma lex_number_token:
  assumes "lex_number s = Some (lx, r)"
  shows "number_token lx"
proof -
  define sg where "sg = (case s of [] \<Rightarrow> ([], s) | c # cs \<Rightarrow> if c = 0x2D then ([c], cs) else ([], s))"
  obtain sign s0 where sg': "sg = (sign, s0)" by (cases sg)
  from assms obtain i s1 f s2 e where
    i: "lex_int s0 = Some (i, s1)" and f: "lex_frac s1 = Some (f, s2)"
    and e: "lex_exp s2 = Some (e, r)" and lx: "lx = sign @ i @ f @ e"
    unfolding lex_number_def sg_def[symmetric] sg'
    by (auto split: option.splits)
  have sign: "sign = [] \<or> sign = [0x2D]" using sg' by (auto simp: sg_def split: list.splits if_splits)
  from lex_int_self[OF i] obtain c cs where ic: "i = c # cs" "is_digit c" and ii: "lex_int i = Some (i, [])"
    by blast
  note ff = lex_frac_self[OF f] and ee = lex_exp_self[OF e]
  have ne: "\<not> next_is is_digit e" "\<not> next_is (\<lambda>c. c = 0x2E) e"
    using ee(2) by (auto simp: next_is_def is_digit_def)
  have nfe: "\<not> next_is is_digit (f @ e)"
    using ff(2) ne(1) by (auto simp: next_is_def is_digit_def)
  have a: "lex_int (i @ f @ e) = Some (i, f @ e)"
    using lex_int_append[OF ii, of "f @ e"] nfe by simp
  have b: "lex_frac (f @ e) = Some (f, e)"
    using lex_frac_append[OF ff(1), of e] ne by simp
  have c: "(case lx of [] \<Rightarrow> ([], lx) | c # cs \<Rightarrow> if c = 0x2D then ([c], cs) else ([], lx)) = (sign, i @ f @ e)"
  proof -
    from sign show ?thesis
    proof
      assume "sign = []"
      moreover have "c \<noteq> 0x2D" using ic(2) by (auto simp: is_digit_def)
      ultimately show ?thesis using lx ic(1) by simp
    next
      assume "sign = [0x2D]"
      then show ?thesis using lx by simp
    qed
  qed
  show ?thesis
    unfolding number_token_def lex_number_def c using a b ee(1) lx by simp
qed

subsection \<open>The order of the properties\<close>

lemma props_ordered_append:
  "props_ordered (xs @ ys) \<longleftrightarrow>
     props_ordered xs \<and> props_ordered ys \<and> (\<forall>x \<in> set xs. \<forall>y \<in> set ys. precedes x y)"
  by (induction xs) (auto simp: list_all_iff)

lemma precedes_key: "fst q = fst q' \<Longrightarrow> precedes p q = precedes p q'"
  by (simp add: precedes_def)

lemma precedes_key_left: "fst p = fst p' \<Longrightarrow> precedes p q = precedes p' q"
  by (simp add: precedes_def before_index_def split: option.splits)

lemma define_property_new:
  assumes "k \<notin> set (map fst acc)" and "\<forall>x \<in> set acc. precedes x (k, v)"
  shows "define_property k v acc = acc @ [(k, v)]"
proof (cases "array_index k")
  case None
  with assms(1) show ?thesis by (simp add: define_property_def)
next
  case (Some i)
  with assms(2) have "\<forall>x \<in> set acc. before_index i x" by (simp add: precedes_def)
  then have "takeWhile (before_index i) acc = acc" "dropWhile (before_index i) acc = []"
    by (simp_all add: takeWhile_eq_all_conv)
  with assms(1) Some show ?thesis by (simp add: define_property_def)
qed

lemma foldl_define_property:
  "props_ok (acc @ ps) \<Longrightarrow>
   foldl (\<lambda>ps m. define_property (fst m) (snd m) ps) acc ps = acc @ ps"
proof (induction ps arbitrary: acc)
  case Nil
  show ?case by simp
next
  case (Cons p ps)
  from Cons.prems have d: "fst p \<notin> set (map fst acc)"
    and o: "\<forall>x \<in> set acc. precedes x p"
    by (auto simp: props_ok_def props_ordered_append)
  have "define_property (fst p) (snd p) acc = acc @ [p]"
    using define_property_new[OF d, of "snd p"] o by simp
  moreover have "props_ok ((acc @ [p]) @ ps)" using Cons.prems by simp
  ultimately show ?case using Cons.IH[of "acc @ [p]"] by simp
qed

lemma create_object_id: "props_ok ps \<Longrightarrow> create_object ps = ps"
  using foldl_define_property[of "[]" ps] by (simp add: create_object_def)

lemma define_property_ok:
  assumes "props_ok ps"
  shows "props_ok (define_property k v ps)"
proof (cases "k \<in> set (map fst ps)")
  case True
  define f :: "jsstring \<times> 'a \<Rightarrow> jsstring \<times> 'a" where "f = (\<lambda>p. if fst p = k then (k, v) else p)"
  have fk: "fst (f p) = fst p" for p by (simp add: f_def)
  have keys: "map fst (map f ps) = map fst ps" by (simp add: fk)
  have pe: "precedes (f q) (f y) = precedes q y" for q y
    using precedes_key[of "f y" y "f q"] precedes_key_left[of "f q" q y] by (simp add: fk)
  have "props_ordered qs \<Longrightarrow> props_ordered (map f qs)" for qs
  proof (induction qs)
    case Nil
    show ?case by simp
  next
    case (Cons q qs)
    then have "list_all (precedes q) qs" and "props_ordered (map f qs)" by simp_all
    moreover have "list_all (precedes (f q)) (map f qs) = list_all (precedes q) qs"
      by (simp add: list_all_iff pe)
    ultimately show ?case by simp
  qed
  with assms have "props_ok (map f ps)" by (simp add: props_ok_def keys del: map_map)
  moreover have "define_property k v ps = map f ps" using True by (simp add: define_property_def f_def)
  ultimately show ?thesis by simp
next
  case new: False
  show ?thesis
  proof (cases "array_index k")
    case None
    then have "\<forall>x \<in> set ps. precedes x (k, v)" by (simp add: precedes_def)
    with assms new None show ?thesis
      by (simp add: define_property_def props_ok_def props_ordered_append)
  next
    case (Some i)
    let ?tw = "takeWhile (before_index i) ps" and ?dw = "dropWhile (before_index i) ps"
    have split: "ps = ?tw @ ?dw" by simp
    from assms have o: "props_ordered (?tw @ ?dw)" by (simp add: props_ok_def)
    from o have otw: "props_ordered ?tw" and odw: "props_ordered ?dw"
      and cross: "\<forall>x \<in> set ?tw. \<forall>y \<in> set ?dw. precedes x y"
      unfolding props_ordered_append by blast+
    have tw: "\<forall>x \<in> set ?tw. precedes x (k, v)"
      using Some by (auto simp: precedes_def dest: set_takeWhileD)
    have dw: "\<forall>y \<in> set ?dw. precedes (k, v) y"
    proof
      fix y assume y: "y \<in> set ?dw"
      show "precedes (k, v) y"
      proof (cases "array_index (fst y)")
        case None
        then show ?thesis by (simp add: precedes_def)
      next
        case j: (Some j)
        from y obtain q0 qs where dwq: "?dw = q0 # qs" by (cases ?dw) auto
        then have n0: "\<not> before_index i q0" using hd_dropWhile[of "before_index i" ps] by auto
        have "precedes q0 y \<or> q0 = y"
          using odw y dwq by (auto simp: list_all_iff)
        then have "\<exists>j0. array_index (fst q0) = Some j0 \<and> j0 \<le> j"
          using j by (auto simp: precedes_def before_index_def split: option.splits)
        then obtain j0 where "array_index (fst q0) = Some j0" "j0 \<le> j" by blast
        with n0 have "i \<le> j" by (simp add: before_index_def)
        with j Some show ?thesis by (simp add: precedes_def before_index_def)
      qed
    qed
    have "props_ordered (?tw @ (k, v) # ?dw)"
      unfolding props_ordered_append using otw odw cross tw dw by (auto simp: list_all_iff)
    moreover have "distinct (map fst (?tw @ (k, v) # ?dw))"
    proof -
      have "distinct (map fst ps)" using assms by (simp add: props_ok_def)
      then have d': "distinct (map fst ?tw @ map fst ?dw)"
        by (metis map_append takeWhile_dropWhile_id)
      have "set (map fst ps) = set (map fst ?tw) \<union> set (map fst ?dw)"
        by (metis map_append set_append takeWhile_dropWhile_id)
      with new have "k \<notin> set (map fst ?tw)" "k \<notin> set (map fst ?dw)" by auto
      with d' show ?thesis by auto
    qed
    ultimately show ?thesis using new Some by (simp add: define_property_def props_ok_def)
  qed
qed

lemma foldl_define_property_ok:
  "props_ok acc \<Longrightarrow> props_ok (foldl (\<lambda>ps m. define_property (fst m) (snd m) ps) acc ms)"
  by (induction ms arbitrary: acc) (simp_all add: define_property_ok)

lemma create_object_ok: "props_ok (create_object ms)"
  using foldl_define_property_ok[of "[]" ms] by (simp add: create_object_def props_ok_def)

lemma define_property_values:
  "set (map snd (define_property k v ps)) \<subseteq> insert v (set (map snd ps))"
proof (cases "k \<in> set (map fst ps)")
  case True
  then show ?thesis by (force simp: define_property_def)
next
  case False
  have "set ps = set (takeWhile (before_index i) ps) \<union> set (dropWhile (before_index i) ps)" for i
    by (metis set_append takeWhile_dropWhile_id)
  with False show ?thesis
    by (auto simp: define_property_def split: option.splits dest: set_takeWhileD set_dropWhileD)
qed

lemma foldl_define_property_values:
  "set (map snd (foldl (\<lambda>ps m. define_property (fst m) (snd m) ps) acc ms))
     \<subseteq> set (map snd acc) \<union> set (map snd ms)"
proof (induction ms arbitrary: acc)
  case Nil
  show ?case by simp
next
  case (Cons m ms)
  from Cons.IH[of "define_property (fst m) (snd m) acc"]
    define_property_values[of "fst m" "snd m" acc]
  show ?case by auto
qed

lemma create_object_values: "set (map snd (create_object ms)) \<subseteq> set (map snd ms)"
  using foldl_define_property_values[of "[]" ms] by (simp add: create_object_def)

lemma skip_ws_indent:
  "list_all is_ws w \<Longrightarrow> \<not> is_ws c \<Longrightarrow> skip_ws (w @ c # s) = c # s"
  by (simp add: skip_ws_def list_all_iff dropWhile_append2)

lemma skip_ws_nonws: "\<not> is_ws c \<Longrightarrow> skip_ws (c # s) = c # s"
  by (simp add: skip_ws_def)

lemma is_ws_simps [simp]: "is_ws 0x0A" "is_ws 0x20" "\<not> is_ws 0x2C" "\<not> is_ws 0x5D" "\<not> is_ws 0x7D"
  "\<not> is_ws 0x3A" "\<not> is_ws 0x22" "\<not> is_ws 0x5B" "\<not> is_ws 0x7B"
  by (simp_all add: is_ws_def)

lemma gap_ws: "list_all is_ws ind \<Longrightarrow> list_all is_ws (ind @ gap)"
  by (simp add: gap_def)

subsection \<open>Parsing what \<open>ser\<close> writes\<close>

text \<open>The branch that \<open>parse_value\<close> takes, by the first character.\<close>

lemma pv_string:
  "parse_value num (0x22 # cs) = map_option (\<lambda>(k, r). (JString k, r)) (parse_chars cs)"
  by (simp add: parse_value.simps)

lemma pv_array_empty: "parse_value num (0x5B # 0x5D # rest) = Some (JArray [], rest)"
  by (simp add: parse_value.simps skip_ws_nonws)

lemma pv_object_empty: "parse_value num (0x7B # 0x7D # rest) = Some (JObject [], rest)"
  by (simp add: parse_value.simps skip_ws_nonws)

lemma pv_array:
  "skip_ws cs = d # ds \<Longrightarrow> d \<noteq> 0x5D \<Longrightarrow>
   parse_value num (0x5B # cs) = map_option (\<lambda>(vs, r). (JArray vs, r)) (parse_elements num (d # ds))"
  by (simp add: parse_value.simps)

lemma pv_object:
  "skip_ws cs = d # ds \<Longrightarrow> d \<noteq> 0x7D \<Longrightarrow>
   parse_value num (0x7B # cs) =
     map_option (\<lambda>(ms, r). (JObject (create_object ms), r)) (parse_members num (d # ds))"
  by (simp add: parse_value.simps)

lemma pv_true: "parse_value num (str ''true'' @ rest) = Some (JBool True, rest)"
  by (simp add: parse_value.simps str_def)

lemma pv_false: "parse_value num (str ''false'' @ rest) = Some (JBool False, rest)"
  by (simp add: parse_value.simps str_def)

lemma pv_null: "parse_value num (str ''null'' @ rest) = Some (JNull, rest)"
  by (simp add: parse_value.simps str_def)

lemma pv_number:
  assumes "c = 0x2D \<or> is_digit c"
  shows "parse_value num (c # cs) = map_option (\<lambda>(lx, r). (JNumber (num lx), r)) (lex_number (c # cs))"
proof -
  from assms have "c \<noteq> 0x22" "c \<noteq> 0x5B" "c \<noteq> 0x7B" "c \<noteq> 0x74" "c \<noteq> 0x66" "c \<noteq> 0x6E"
    by (auto simp: is_digit_def)
  with assms show ?thesis by (simp add: parse_value.simps str_def)
qed

lemma ser_first:
  assumes "numbers_ok nt v"
  shows "\<exists>c cs. ser nt ind v = c # cs \<and> opens_value c"
proof (cases v)
  case JNull
  then show ?thesis by (simp add: str_def opens_value_def is_ws_def)
next
  case (JBool b)
  then show ?thesis by (simp add: str_def opens_value_def is_ws_def)
next
  case (JNumber d)
  with assms have "nt d = str ''null'' \<or> number_token (nt d)" by (simp add: number_ok_def)
  then show ?thesis
  proof
    assume "nt d = str ''null''"
    with JNumber show ?thesis by (simp add: str_def opens_value_def is_ws_def)
  next
    assume "number_token (nt d)"
    from number_token_first[OF this] obtain c cs where "nt d = c # cs" "c = 0x2D \<or> is_digit c"
      by blast
    with JNumber show ?thesis by (auto simp: opens_value_def is_ws_def is_digit_def)
  qed
next
  case (JString s)
  then show ?thesis by (simp add: quote_def opens_value_def is_ws_def)
next
  case (JArray vs)
  then show ?thesis by (simp add: str_def opens_value_def is_ws_def)
next
  case (JObject ps)
  then show ?thesis by (simp add: str_def opens_value_def is_ws_def)
qed

lemma delimited_simps [simp]: "delimited []" "delimited (0x2C # s)" "delimited (0x0A # s)"
  by (simp_all add: delimited_def is_digit_def)

lemma join_Cons2: "ys \<noteq> [] \<Longrightarrow> join sep (x # ys) = x @ sep @ join sep ys"
  by (cases ys) simp_all

text \<open>The elements of an array, as \<open>ser\<close> writes them, up to the closing bracket.\<close>

lemma parse_elements_join:
  fixes texts :: "jsstring list" and vals :: "'n json list"
  assumes "length texts = length vals" and "texts \<noteq> []"
    and "sep = 0x2C # 0x0A # ind'"
    and "list_all is_ws ind'" and "list_all is_ws ind"
    and "\<forall>i < length texts. \<exists>c cs. texts ! i = c # cs \<and> opens_value c"
    and "\<forall>i < length texts. \<forall>r. delimited r \<longrightarrow> parse_value num (texts ! i @ r) = Some (vals ! i, r)"
  shows "parse_elements num (join sep texts @ 0x0A # ind @ 0x5D # rest) = Some (vals, rest)"
  using assms(1,2,6,7)
proof (induction texts arbitrary: vals)
  case Nil
  then show ?case by simp
next
  case (Cons t ts)
  from Cons.prems(1) obtain v vs where vals: "vals = v # vs" and len: "length ts = length vs"
    by (cases vals) simp_all
  have pv: "\<And>r. delimited r \<Longrightarrow> parse_value num (t @ r) = Some (v, r)"
    using Cons.prems(4) vals by (metis length_greater_0_conv list.distinct(1) nth_Cons_0)
  show ?case
  proof (cases ts)
    case Nil
    with len have vs: "vs = []" by simp
    have "parse_value num (t @ 0x0A # ind @ 0x5D # rest) = Some (v, 0x0A # ind @ 0x5D # rest)"
      by (rule pv) simp
    moreover have "skip_ws (0x0A # ind @ 0x5D # rest) = 0x5D # rest"
      using skip_ws_indent[of "0x0A # ind" "0x5D" rest] assms(5) by simp
    ultimately show ?thesis
      using Nil vals vs by (subst parse_elements.simps) simp
  next
    case ts: (Cons t' ts')
    define tail where "tail = join sep ts @ 0x0A # ind @ 0x5D # rest"
    have j: "join sep (t # ts) @ 0x0A # ind @ 0x5D # rest = t @ 0x2C # 0x0A # ind' @ tail"
      using ts by (simp add: tail_def assms(3))
    have a: "parse_value num (t @ 0x2C # 0x0A # ind' @ tail) = Some (v, 0x2C # 0x0A # ind' @ tail)"
      by (rule pv) simp
    from Cons.prems(3) ts obtain c cs where t': "t' = c # cs" "opens_value c"
      by (metis length_Cons nth_Cons_0 nth_Cons_Suc zero_less_Suc Suc_less_eq)
    then obtain tl' where tail: "tail = c # tl'" using ts
      by (cases ts') (simp_all add: tail_def)
    have sk: "skip_ws (0x0A # ind' @ tail) = tail"
      using skip_ws_indent[of "0x0A # ind'" c tl'] assms(4) t'(2) tail
      by (simp add: opens_value_def)
    have ih: "parse_elements num tail = Some (vs, rest)"
      unfolding tail_def
    proof (rule Cons.IH[OF len])
      show "ts \<noteq> []" using ts by simp
      show "\<forall>i<length ts. \<exists>c cs. ts ! i = c # cs \<and> opens_value c"
        using Cons.prems(3) by (metis length_Cons nth_Cons_Suc Suc_less_eq)
      show "\<forall>i<length ts. \<forall>r. delimited r \<longrightarrow> parse_value num (ts ! i @ r) = Some (vs ! i, r)"
        using Cons.prems(4) vals by (metis length_Cons nth_Cons_Suc Suc_less_eq)
    qed
    show ?thesis
      unfolding j
      by (subst parse_elements.simps) (simp add: a skip_ws_nonws sk ih vals)
  qed
qed

lemma parse_members_join:
  fixes ps :: "(jsstring \<times> 'n json) list"
  assumes "ps \<noteq> []"
    and "sep = 0x2C # 0x0A # ind'"
    and "list_all is_ws ind'" and "list_all is_ws ind"
    and "\<forall>p \<in> set ps. \<exists>c cs. wr (snd p) = c # cs \<and> opens_value c"
    and "\<forall>p \<in> set ps. \<forall>r. delimited r \<longrightarrow> parse_value num (wr (snd p) @ r) = Some (g (snd p), r)"
  shows "parse_members num
           (join sep (map (\<lambda>p. quote (fst p) @ [0x3A, 0x20] @ wr (snd p)) ps) @ 0x0A # ind @ 0x7D # rest)
         = Some (map (\<lambda>p. (fst p, g (snd p))) ps, rest)"
  using assms(1,5,6)
proof (induction ps)
  case Nil
  then show ?case by simp
next
  case (Cons p ps)
  obtain c cs where t: "wr (snd p) = c # cs" "opens_value c" using Cons.prems(2) by auto
  have pv: "\<And>r. delimited r \<Longrightarrow> parse_value num (c # cs @ r) = Some (g (snd p), r)"
    using Cons.prems(3) t by auto
  have key: "\<And>r. parse_chars (quote_chars (fst p) @ 0x22 # r) = Some (fst p, r)"
    by (rule parse_chars_quote_chars)
  have val: "\<And>r. skip_ws (0x20 # c # cs @ r) = c # cs @ r"
    using skip_ws_indent[of "[0x20]" c] t(2) by (simp add: opens_value_def)
  show ?case
  proof (cases ps)
    case Nil
    have close: "skip_ws (0x0A # ind @ 0x7D # rest) = 0x7D # rest"
      using skip_ws_indent[of "0x0A # ind" "0x7D" rest] assms(4) by simp
    have "parse_members num (0x22 # quote_chars (fst p) @ 0x22 # 0x3A # 0x20 # c # cs @ 0x0A # ind @ 0x7D # rest)
            = Some ([(fst p, g (snd p))], rest)"
      by (subst parse_members.simps) (simp add: key skip_ws_nonws val pv close)
    with Nil t show ?thesis by (simp add: quote_def)
  next
    case ps: (Cons p' ps')
    define tail where
      "tail = join sep (map (\<lambda>p. quote (fst p) @ [0x3A, 0x20] @ wr (snd p)) ps) @ 0x0A # ind @ 0x7D # rest"
    have j: "join sep (map (\<lambda>p. quote (fst p) @ [0x3A, 0x20] @ wr (snd p)) (p # ps)) @ 0x0A # ind @ 0x7D # rest
               = 0x22 # quote_chars (fst p) @ 0x22 # 0x3A # 0x20 # c # cs @ 0x2C # 0x0A # ind' @ tail"
      using ps t by (simp add: tail_def assms(2) quote_def)
    have tl: "tail = 0x22 # tl tail" using ps by (cases ps') (simp_all add: tail_def quote_def)
    have sk: "skip_ws (0x0A # ind' @ tail) = tail"
      using skip_ws_indent[of "0x0A # ind'" "0x22" "tl tail"] assms(3) tl by simp
    have ih: "parse_members num tail = Some (map (\<lambda>p. (fst p, g (snd p))) ps, rest)"
      unfolding tail_def using Cons.IH Cons.prems(2,3) ps by simp
    show ?thesis
      unfolding j
      by (subst parse_members.simps) (simp add: key skip_ws_nonws val pv sk ih)
  qed
qed

text \<open>The same for the elements of an array, from the elements themselves.\<close>

lemma parse_elements_ser:
  fixes vs :: "'n json list"
  assumes "vs \<noteq> []"
    and "sep = 0x2C # 0x0A # ind'"
    and "list_all is_ws ind'" and "list_all is_ws ind"
    and "\<forall>v \<in> set vs. \<exists>c cs. wr v = c # cs \<and> opens_value c"
    and "\<forall>v \<in> set vs. \<forall>r. delimited r \<longrightarrow> parse_value num (wr v @ r) = Some (g v, r)"
  shows "parse_elements num (join sep (map wr vs) @ 0x0A # ind @ 0x5D # rest) = Some (map g vs, rest)"
proof (rule parse_elements_join[OF _ _ assms(2,3,4)])
  show "length (map wr vs) = length (map g vs)" by simp
  show "map wr vs \<noteq> []" using assms(1) by simp
  show "\<forall>i<length (map wr vs). \<exists>c cs. map wr vs ! i = c # cs \<and> opens_value c"
    using assms(5) by simp
  show "\<forall>i<length (map wr vs). \<forall>r. delimited r \<longrightarrow>
          parse_value num (map wr vs ! i @ r) = Some (map g vs ! i, r)"
    using assms(6) by simp
qed

lemma props_ordered_map_keys:
  assumes "\<And>p. fst (f p) = fst p"
  shows "props_ordered (map f ps) = props_ordered ps"
proof (induction ps)
  case Nil
  show ?case by simp
next
  case (Cons q qs)
  have "precedes (f q) (f y) = precedes q y" for y
    using precedes_key[of "f y" y "f q"] precedes_key_left[of "f q" q y] assms by simp
  then have "list_all (precedes (f q)) (map f qs) = list_all (precedes q) qs"
    by (simp add: list_all_iff)
  with Cons show ?case by simp
qed

lemma props_ok_map_values: "props_ok (map (\<lambda>p. (fst p, g (snd p))) ps) = props_ok ps"
proof -
  have "map fst (map (\<lambda>p. (fst p, g (snd p))) ps) = map fst ps" by simp
  moreover have "props_ordered (map (\<lambda>p. (fst p, g (snd p))) ps) = props_ordered ps"
    by (rule props_ordered_map_keys) simp
  ultimately show ?thesis unfolding props_ok_def by (simp only:)
qed

lemma parse_ser:
  assumes "keys_ok v" and "numbers_ok (num_text P) v" and "delimited rest" and "list_all is_ws ind"
  shows "parse_value (to_number P) (ser (num_text P) ind v @ rest) = Some (reread P v, rest)"
  using assms
proof (induction v arbitrary: ind rest)
  case JNull
  show ?case by (simp add: pv_null)
next
  case (JBool b)
  show ?case by (simp add: pv_true pv_false)
next
  case (JNumber d)
  then have "num_text P d = str ''null'' \<or> number_token (num_text P d)" by (simp add: number_ok_def)
  then show ?case
  proof
    assume "num_text P d = str ''null''"
    then show ?thesis by (simp add: pv_null)
  next
    assume t: "number_token (num_text P d)"
    then have nn: "num_text P d \<noteq> str ''null''"
      using number_token_first[OF t] by (auto simp: str_def is_digit_def)
    from number_token_first[OF t] obtain c cs where c: "num_text P d = c # cs" "c = 0x2D \<or> is_digit c"
      by blast
    have "lex_number (c # cs @ rest) = Some (c # cs, rest)"
      using number_token_append[OF t JNumber.prems(3)] c(1) by simp
    with pv_number[OF c(2), of "to_number P" "cs @ rest"] c(1) nn show ?thesis by simp
  qed
next
  case (JString s)
  show ?case by (simp add: quote_def pv_string parse_chars_quote_chars)
next
  case (JArray vs)
  show ?case
  proof (cases "vs = []")
    case True
    then show ?thesis by (simp add: str_def pv_array_empty)
  next
    case False
    define ind' where "ind' = ind @ gap"
    define sep where "sep = 0x2C # 0x0A # ind'"
    define wr where "wr = ser (num_text P) ind'"
    have ws': "list_all is_ws ind'" using gap_ws[OF JArray.prems(4)] by (simp only: ind'_def)
    have first: "\<forall>v \<in> set vs. \<exists>c cs. wr v = c # cs \<and> opens_value c"
      using JArray.prems(2) ser_first[of "num_text P" _ ind'] by (auto simp: wr_def list_all_iff)
    have each: "\<forall>v \<in> set vs. \<forall>r. delimited r \<longrightarrow>
        parse_value (to_number P) (wr v @ r) = Some (reread P v, r)"
      using JArray.IH JArray.prems(1,2) ws' by (auto simp: wr_def list_all_iff)
    note e = parse_elements_ser[OF False sep_def ws' JArray.prems(4) first each, of rest]
    define body where "body = join sep (map wr vs) @ 0x0A # ind @ 0x5D # rest"
    have s: "ser (num_text P) ind (JArray vs) @ rest = 0x5B # 0x0A # ind' @ body"
      using False by (simp add: body_def sep_def wr_def ind'_def)
    obtain v0 vs0 where vs: "vs = v0 # vs0" using False by (cases vs) auto
    with first obtain c cs where c: "wr v0 = c # cs" "opens_value c" by auto
    then obtain b where b: "body = c # b" using vs by (cases vs0) (simp_all add: body_def)
    have sk: "skip_ws (0x0A # ind' @ body) = c # b"
      using skip_ws_indent[of "0x0A # ind'" c b] ws' c(2) b by (simp add: opens_value_def)
    have "c \<noteq> 0x5D" using c(2) by (simp add: opens_value_def)
    from pv_array[OF sk this, of "to_number P"] e b
    show ?thesis unfolding s body_def[symmetric] by simp
  qed
next
  case (JObject ps)
  show ?case
  proof (cases "ps = []")
    case True
    then show ?thesis by (simp add: str_def pv_object_empty create_object_def)
  next
    case False
    define ind' where "ind' = ind @ gap"
    define sep where "sep = 0x2C # 0x0A # ind'"
    define wr where "wr = ser (num_text P) ind'"
    have ws': "list_all is_ws ind'" using gap_ws[OF JObject.prems(4)] by (simp only: ind'_def)
    have first: "\<forall>p \<in> set ps. \<exists>c cs. wr (snd p) = c # cs \<and> opens_value c"
      using JObject.prems(2) ser_first[of "num_text P" _ ind'] by (auto simp: wr_def list_all_iff)
    have each: "\<forall>p \<in> set ps. \<forall>r. delimited r \<longrightarrow>
        parse_value (to_number P) (wr (snd p) @ r) = Some (reread P (snd p), r)"
    proof (intro ballI allI impI)
      fix p r assume p: "p \<in> set ps" and r: "delimited r"
      have "snd p \<in> Basic_BNFs.snds p" by (cases p) simp
      from JObject.IH[OF p this _ _ r ws'] JObject.prems(1,2) p
      show "parse_value (to_number P) (wr (snd p) @ r) = Some (reread P (snd p), r)"
        by (auto simp: wr_def list_all_iff)
    qed
    note m = parse_members_join[OF False sep_def ws' JObject.prems(4) first each, of rest]
    define body where "body = join sep (map (\<lambda>p. quote (fst p) @ [0x3A, 0x20] @ wr (snd p)) ps)
                                @ 0x0A # ind @ 0x7D # rest"
    have s: "ser (num_text P) ind (JObject ps) @ rest = 0x7B # 0x0A # ind' @ body"
      using False by (simp add: body_def sep_def wr_def ind'_def)
    obtain p0 ps0 where ps: "ps = p0 # ps0" using False by (cases ps) auto
    then obtain b where b: "body = 0x22 # b" by (cases ps0) (simp_all add: body_def quote_def)
    have sk: "skip_ws (0x0A # ind' @ body) = 0x22 # b"
      using skip_ws_indent[of "0x0A # ind'" "0x22" b] ws' b by simp
    have ok: "create_object (map (\<lambda>p. (fst p, reread P (snd p))) ps) = map (\<lambda>p. (fst p, reread P (snd p))) ps"
      using JObject.prems(1) by (intro create_object_id) (simp add: props_ok_map_values)
    have "(0x22 :: 16 word) \<noteq> 0x7D" by simp
    from pv_object[OF sk this, of "to_number P"] m b ok
    show ?thesis unfolding s body_def[symmetric] by simp
  qed
qed

subsection \<open>What \<open>JSON.parse\<close> builds, and reading it back\<close>

lemma create_object_keys_ok:
  assumes "list_all (\<lambda>p. keys_ok (snd p)) ms"
  shows "keys_ok (JObject (create_object ms))"
proof -
  have sub: "snd ` set (create_object ms) \<subseteq> snd ` set ms"
    using create_object_values[of ms] by simp
  have "keys_ok (snd p)" if "p \<in> set (create_object ms)" for p
  proof -
    from that sub have "snd p \<in> snd ` set ms" by blast
    then obtain q where "q \<in> set ms" "snd q = snd p" by auto
    with assms show ?thesis by (auto simp: list_all_iff)
  qed
  then have "list_all (\<lambda>p. keys_ok (snd p)) (create_object ms)" by (simp add: list_all_iff)
  with create_object_ok[of ms] show ?thesis by simp
qed

lemma parse_keys_ok:
  "parse_value num s = Some (v, r) \<Longrightarrow> keys_ok v"
  "parse_elements num s = Some (vs, r) \<Longrightarrow> list_all keys_ok vs"
  "parse_members num s = Some (ms, r) \<Longrightarrow> list_all (\<lambda>p. keys_ok (snd p)) ms"
proof (induction num s and num s and num s arbitrary: v r and vs r and ms r
    rule: parse_value_parse_elements_parse_members.induct)
  case (1 num s)
  note p' = 1(3)[unfolded parse_value.simps[of num s]]
  from p' obtain c cs where s: "s = c # cs" by (cases s) simp_all
  note eq = p'[unfolded s list.case]
  show ?case
  proof (cases "c = 0x22")
    case True
    with eq show ?thesis by auto
  next
    case q: False
    show ?thesis
    proof (cases "c = 0x5B")
      case True
      with eq q obtain d ds where sk: "skip_ws cs = d # ds" by (cases "skip_ws cs") simp_all
      show ?thesis
      proof (cases "d = 0x5D")
        case True
        with eq q \<open>c = 0x5B\<close> sk show ?thesis by auto
      next
        case False
        with eq q \<open>c = 0x5B\<close> sk obtain vs where e: "parse_elements num (d # ds) = Some (vs, r)"
          and v: "v = JArray vs" by auto
        from 1(1)[OF s q \<open>c = 0x5B\<close> sk False e] v show ?thesis by simp
      qed
    next
      case b: False
      show ?thesis
      proof (cases "c = 0x7B")
        case True
        with eq q b obtain d ds where sk: "skip_ws cs = d # ds" by (cases "skip_ws cs") simp_all
        show ?thesis
        proof (cases "d = 0x7D")
          case True
          with eq q b \<open>c = 0x7B\<close> sk show ?thesis by (auto simp: props_ok_def)
        next
          case False
          with eq q b \<open>c = 0x7B\<close> sk obtain ms where e: "parse_members num (d # ds) = Some (ms, r)"
            and v: "v = JObject (create_object ms)" by auto
          from 1(2)[OF s q b \<open>c = 0x7B\<close> sk False e] v show ?thesis
            by (simp only: create_object_keys_ok)
        qed
      next
        case o: False
        from eq q b o show ?thesis by (auto split: if_splits)
      qed
    qed
  qed
next
  case (2 num s)
  note eq = 2(3)[unfolded parse_elements.simps[of num s]]
  from eq obtain v r1 where v: "parse_value num s = Some (v, r1)"
    by (cases "parse_value num s") auto
  from eq v obtain d ds where sk: "skip_ws r1 = d # ds" by (cases "skip_ws r1") simp_all
  show ?case
  proof (cases "d = 0x2C")
    case True
    with eq v sk obtain vs' where e: "parse_elements num (skip_ws ds) = Some (vs', r)"
      and vs: "vs = v # vs'" by auto
    from 2(1)[OF v] 2(2)[OF v refl sk True e] vs show ?thesis by simp
  next
    case False
    with eq v sk have "vs = [v]" by (auto split: if_splits)
    with 2(1)[OF v] show ?thesis by simp
  qed
next
  case (3 num s)
  note p' = 3(3)[unfolded parse_members.simps[of num s]]
  from p' obtain c cs where s: "s = c # cs" by (cases s) simp_all
  note eq = p'[unfolded s list.case]
  from eq have c: "c = 0x22" by (auto split: if_splits)
  from eq c obtain k r0 where k: "parse_chars cs = Some (k, r0)"
    by (cases "parse_chars cs") auto
  from eq c k obtain d ds where sk: "skip_ws r0 = d # ds" by (cases "skip_ws r0") simp_all
  from eq c k sk have d: "d = 0x3A" by (auto split: if_splits)
  from eq c k sk d obtain v r1 where v: "parse_value num (skip_ws ds) = Some (v, r1)"
    by (cases "parse_value num (skip_ws ds)") auto
  from eq c k sk d v obtain e es where sk2: "skip_ws r1 = e # es" by (cases "skip_ws r1") simp_all
  note kv = 3(1)[OF s c k refl sk d v]
  show ?case
  proof (cases "e = 0x2C")
    case True
    with eq c k sk d v sk2 obtain ms' where m: "parse_members num (skip_ws es) = Some (ms', r)"
      and ms: "ms = (k, v) # ms'" by auto
    from kv 3(2)[OF s c k refl sk d v refl sk2 True m] ms show ?thesis by simp
  next
    case False
    with eq c k sk d v sk2 have "ms = [(k, v)]" by (auto split: if_splits)
    with kv show ?thesis by simp
  qed
qed

lemma JSON_parse_keys_ok: "JSON_parse num s = Some v \<Longrightarrow> keys_ok v"
  by (auto simp: JSON_parse_def split: option.splits if_splits dest: parse_keys_ok(1))

lemma text_stable_number_ok: "text_stable P d \<Longrightarrow> number_ok (num_text P) d"
  by (auto simp: text_stable_def number_ok_def)

lemma numbers_stable_ok: "numbers_stable P v \<Longrightarrow> numbers_ok (num_text P) v"
proof (induction v)
  case (JNumber d)
  then show ?case by (simp add: text_stable_number_ok)
next
  case (JArray vs)
  then show ?case by (simp add: list_all_iff)
next
  case (JObject ps)
  have "numbers_ok (num_text P) (snd p)" if "p \<in> set ps" for p
  proof -
    have "snd p \<in> Basic_BNFs.snds p" by (cases p) simp
    from JObject.IH[OF that this] JObject.prems that show ?thesis by (simp add: list_all_iff)
  qed
  then show ?case by (simp add: list_all_iff)
qed simp_all

lemma ser_reread:
  "numbers_stable P v \<Longrightarrow> ser (num_text P) ind (reread P v) = ser (num_text P) ind v"
proof (induction v arbitrary: ind)
  case (JNumber d)
  then have "text_stable P d" by simp
  then show ?case by (auto simp: text_stable_def)
next
  case (JArray vs)
  have "map (ser (num_text P) (ind @ gap)) (map (reread P) vs) = map (ser (num_text P) (ind @ gap)) vs"
    unfolding map_map
  proof (rule map_cong[OF refl])
    fix v assume "v \<in> set vs"
    with JArray show "(ser (num_text P) (ind @ gap) \<circ> reread P) v = ser (num_text P) (ind @ gap) v"
      by (simp add: list_all_iff)
  qed
  moreover have "map (reread P) vs = [] \<longleftrightarrow> vs = []" by simp
  ultimately show ?case by (simp only: reread.simps ser.simps)
next
  case (JObject ps)
  have "map (\<lambda>p. quote (fst p) @ [0x3A, 0x20] @ ser (num_text P) (ind @ gap) (snd p))
             (map (\<lambda>p. (fst p, reread P (snd p))) ps)
        = map (\<lambda>p. quote (fst p) @ [0x3A, 0x20] @ ser (num_text P) (ind @ gap) (snd p)) ps"
    unfolding map_map
  proof (rule map_cong[OF refl])
    fix p assume p: "p \<in> set ps"
    have "snd p \<in> Basic_BNFs.snds p" by (cases p) simp
    from JObject.IH[OF p this, of "ind @ gap"] JObject.prems p
    show "((\<lambda>p. quote (fst p) @ [0x3A, 0x20] @ ser (num_text P) (ind @ gap) (snd p)) \<circ>
             (\<lambda>p. (fst p, reread P (snd p)))) p
           = quote (fst p) @ [0x3A, 0x20] @ ser (num_text P) (ind @ gap) (snd p)"
      by (simp add: list_all_iff)
  qed
  moreover have "map (\<lambda>p. (fst p, reread P (snd p))) ps = [] \<longleftrightarrow> ps = []" by simp
  ultimately show ?case by (simp only: reread.simps ser.simps)
qed simp_all

text \<open>The numbers of a parsed value are the values of number tokens.\<close>

lemma create_object_numbers_stable:
  assumes "list_all (\<lambda>p. numbers_stable P (snd p)) ms"
  shows "numbers_stable P (JObject (create_object ms))"
proof -
  have sub: "snd ` set (create_object ms) \<subseteq> snd ` set ms"
    using create_object_values[of ms] by simp
  have "numbers_stable P (snd p)" if "p \<in> set (create_object ms)" for p
  proof -
    from that sub have "snd p \<in> snd ` set ms" by blast
    then obtain q where "q \<in> set ms" "snd q = snd p" by auto
    with assms show ?thesis by (auto simp: list_all_iff)
  qed
  then show ?thesis by (simp add: list_all_iff)
qed

lemma parse_numbers_stable:
  assumes law: "\<forall>lx. number_token lx \<longrightarrow> text_stable P (num lx)"
  shows "parse_value num s = Some (v, r) \<Longrightarrow> numbers_stable P v"
    and "parse_elements num s = Some (vs, r) \<Longrightarrow> list_all (numbers_stable P) vs"
    and "parse_members num s = Some (ms, r) \<Longrightarrow> list_all (\<lambda>p. numbers_stable P (snd p)) ms"
  using law
proof (induction num s and num s and num s arbitrary: v r and vs r and ms r
    rule: parse_value_parse_elements_parse_members.induct)
  case (1 num s)
  note p' = 1(3)[unfolded parse_value.simps[of num s]]
  from p' obtain c cs where s: "s = c # cs" by (cases s) simp_all
  note eq = p'[unfolded s list.case]
  show ?case
  proof (cases "c = 0x22")
    case True
    with eq show ?thesis by auto
  next
    case q: False
    show ?thesis
    proof (cases "c = 0x5B")
      case True
      with eq q obtain d ds where sk: "skip_ws cs = d # ds" by (cases "skip_ws cs") simp_all
      show ?thesis
      proof (cases "d = 0x5D")
        case True
        with eq q \<open>c = 0x5B\<close> sk show ?thesis by auto
      next
        case False
        with eq q \<open>c = 0x5B\<close> sk obtain vs where e: "parse_elements num (d # ds) = Some (vs, r)"
          and v: "v = JArray vs" by auto
        from 1(1)[OF s q \<open>c = 0x5B\<close> sk False e 1(4)] v show ?thesis by simp
      qed
    next
      case b: False
      show ?thesis
      proof (cases "c = 0x7B")
        case True
        with eq q b obtain d ds where sk: "skip_ws cs = d # ds" by (cases "skip_ws cs") simp_all
        show ?thesis
        proof (cases "d = 0x7D")
          case True
          with eq q b \<open>c = 0x7B\<close> sk show ?thesis by auto
        next
          case False
          with eq q b \<open>c = 0x7B\<close> sk obtain ms where e: "parse_members num (d # ds) = Some (ms, r)"
            and v: "v = JObject (create_object ms)" by auto
          from 1(2)[OF s q b \<open>c = 0x7B\<close> sk False e 1(4)] v show ?thesis
            by (simp only: create_object_numbers_stable)
        qed
      next
        case o: False
        show ?thesis
        proof (cases "prefix (str ''true'') (c # cs) \<or> prefix (str ''false'') (c # cs) \<or> prefix (str ''null'') (c # cs)")
          case True
          with eq q b o show ?thesis by (auto split: if_splits)
        next
          case False
          with eq q b o obtain lx where l: "lex_number (c # cs) = Some (lx, r)" and v: "v = JNumber (num lx)"
            by (auto split: if_splits)
          from lex_number_token[OF l] 1(4) v show ?thesis by simp
        qed
      qed
    qed
  qed
next
  case (2 num s)
  note eq = 2(3)[unfolded parse_elements.simps[of num s]]
  from eq obtain v r1 where v: "parse_value num s = Some (v, r1)"
    by (cases "parse_value num s") auto
  from eq v obtain d ds where sk: "skip_ws r1 = d # ds" by (cases "skip_ws r1") simp_all
  show ?case
  proof (cases "d = 0x2C")
    case True
    with eq v sk obtain vs' where e: "parse_elements num (skip_ws ds) = Some (vs', r)"
      and vs: "vs = v # vs'" by auto
    from 2(1)[OF v 2(4)] 2(2)[OF v refl sk True e 2(4)] vs show ?thesis by simp
  next
    case False
    with eq v sk have "vs = [v]" by (auto split: if_splits)
    with 2(1)[OF v 2(4)] show ?thesis by simp
  qed
next
  case (3 num s)
  note p' = 3(3)[unfolded parse_members.simps[of num s]]
  from p' obtain c cs where s: "s = c # cs" by (cases s) simp_all
  note eq = p'[unfolded s list.case]
  from eq have c: "c = 0x22" by (auto split: if_splits)
  from eq c obtain k r0 where k: "parse_chars cs = Some (k, r0)"
    by (cases "parse_chars cs") auto
  from eq c k obtain d ds where sk: "skip_ws r0 = d # ds" by (cases "skip_ws r0") simp_all
  from eq c k sk have d: "d = 0x3A" by (auto split: if_splits)
  from eq c k sk d obtain v r1 where v: "parse_value num (skip_ws ds) = Some (v, r1)"
    by (cases "parse_value num (skip_ws ds)") auto
  from eq c k sk d v obtain e es where sk2: "skip_ws r1 = e # es" by (cases "skip_ws r1") simp_all
  note kv = 3(1)[OF s c k refl sk d v 3(4)]
  show ?case
  proof (cases "e = 0x2C")
    case True
    with eq c k sk d v sk2 obtain ms' where m: "parse_members num (skip_ws es) = Some (ms', r)"
      and ms: "ms = (k, v) # ms'" by auto
    from kv 3(2)[OF s c k refl sk d v refl sk2 True m 3(4)] ms show ?thesis by simp
  next
    case False
    with eq c k sk d v sk2 have "ms = [(k, v)]" by (auto split: if_splits)
    with kv show ?thesis by simp
  qed
qed

lemma JSON_parse_numbers_stable:
  assumes "\<forall>lx. number_token lx \<longrightarrow> text_stable P (to_number P lx)"
    and "JSON_parse (to_number P) s = Some v"
  shows "numbers_stable P v"
  using assms(2) parse_numbers_stable(1)[OF assms(1)]
  by (auto simp: JSON_parse_def split: option.splits if_splits)

lemma JSON_parse_stringify:
  assumes "keys_ok v" and "numbers_stable P v"
  shows "JSON_parse (to_number P) (JSON_stringify (num_text P) v) = Some (reread P v)"
proof -
  note ok = numbers_stable_ok[OF assms(2)]
  from ser_first[OF ok, of "[]"] obtain c cs where c: "ser (num_text P) [] v = c # cs" "opens_value c"
    by blast
  then have sk: "skip_ws (ser (num_text P) [] v) = ser (num_text P) [] v"
    by (simp add: skip_ws_nonws opens_value_def)
  have "parse_value (to_number P) (ser (num_text P) [] v @ []) = Some (reread P v, [])"
    by (rule parse_ser[OF assms(1) ok]) simp_all
  then have "parse_value (to_number P) (skip_ws (ser (num_text P) [] v)) = Some (reread P v, [])"
    by (simp add: sk)
  moreover have "skip_ws [] = []" by (simp add: skip_ws_def)
  ultimately show ?thesis by (simp add: JSON_parse_def JSON_stringify_def)
qed

lemma formatJson_valid:
  assumes "JSON_parse (to_number P) text = Some v" and "numbers_stable P v"
  shows "isValidJson P (formatJson P text)" and "formatJson P (formatJson P text) = formatJson P text"
proof -
  have f: "formatJson P text = JSON_stringify (num_text P) v" using assms(1) by (simp add: formatJson_def)
  note p = JSON_parse_stringify[OF JSON_parse_keys_ok[OF assms(1)] assms(2)]
  show "isValidJson P (formatJson P text)" by (simp add: isValidJson_def f p)
  have "formatJson P (JSON_stringify (num_text P) v) = JSON_stringify (num_text P) (reread P v)"
    by (simp add: formatJson_def p)
  also have "\<dots> = JSON_stringify (num_text P) v"
    by (simp add: JSON_stringify_def ser_reread[OF assms(2)])
  finally show "formatJson P (formatJson P text) = formatJson P text" by (simp only: f)
qed

section \<open>Properties of \<open>formatContent\<close> and \<open>isValidJson\<close>\<close>

subsection \<open>Scalars and the sample\<close>

lemma number_token_JSON_parse:
  assumes "number_token lx"
  shows "JSON_parse num lx = Some (JNumber (num lx))"
proof -
  from number_token_first[OF assms] obtain c cs where c: "lx = c # cs" "c = 0x2D \<or> is_digit c"
    by blast
  then have sk: "skip_ws lx = lx" by (auto simp: skip_ws_def is_ws_def is_digit_def)
  have "lex_number lx = Some (lx, [])" using assms by (simp add: number_token_def)
  with pv_number[OF c(2), of num cs] c(1) have "parse_value num lx = Some (JNumber (num lx), [])"
    by simp
  then show ?thesis by (simp add: JSON_parse_def sk) (simp add: skip_ws_def)
qed

lemma number_token_123: "number_token (str ''123'')"
  by (simp add: number_token_def str_def lex_number_def lex_int_def lex_frac_def lex_exp_def is_digit_def)

lemma number_token_1e2: "number_token (str ''1e2'')"
  by (simp add: number_token_def str_def lex_number_def lex_int_def lex_frac_def lex_exp_def
      lex_digits_def is_digit_def)

lemma JSON_parse_null: "JSON_parse num (str ''null'') = Some JNull"
  using pv_null[of num "[]"] by (simp add: JSON_parse_def skip_ws_def str_def is_ws_def)

lemma JSON_parse_true: "JSON_parse num (str ''true'') = Some (JBool True)"
  using pv_true[of num "[]"] by (simp add: JSON_parse_def skip_ws_def str_def is_ws_def)

lemma formatContent_number_token:
  assumes "number_token lx"
  shows "isValidJson P lx" and "formatContent P lx (str ''text/plain'') = num_text P (to_number P lx)"
  using number_token_JSON_parse[OF assms, of "to_number P"]
  by (simp_all add: isValidJson_def formatContent_def formatJson_def JSON_stringify_def)

lemma exact_1e2: "num_text exact_numbers (to_number exact_numbers (str ''1e2'')) = str ''100''"
  by (simp add: exact_numbers_def exact_number_def exact_value_def str_def lex_int_def lex_frac_def
      lex_exp_def lex_digits_def is_digit_def exponent_value_def digit_value_def number_text_def
      digits_of.simps)

lemma sample_parse: "JSON_parse (to_number exact_numbers) sample_text = Some sample_value"
  by code_simp

lemma sample_format:
  "formatContent exact_numbers sample_text (str ''text/plain'') =
     str ''{'' @ [0x0A] @ str ''  \"1\": \"x\",'' @ [0x0A] @ str ''  \"b\": ['' @ [0x0A] @
     str ''    100,'' @ [0x0A] @ str ''    true'' @ [0x0A] @ str ''  ]'' @ [0x0A] @ str ''}''"
  by code_simp

subsection \<open>The exact numbers are stable\<close>

lemma digit_chars_all:
  "list_all (\<lambda>k. is_digit (of_nat (48 + k)) \<and> uint (of_nat (48 + k) :: 16 word) = int k + 48 \<and>
                  ((of_nat (48 + k) :: 16 word) = 0x30 \<longleftrightarrow> k = 0)) [0..<10]"
  by code_simp

lemma digit_char:
  assumes "0 \<le> k" and "k < 10"
  shows "is_digit (of_int (48 + k))" and "uint (of_int (48 + k) :: 16 word) = k + 48"
    and "(of_int (48 + k) :: 16 word) = 0x30 \<longleftrightarrow> k = 0"
proof -
  define m where "m = nat k"
  from assms have m: "k = int m" "m < 10" by (simp_all add: m_def)
  have w: "(of_int (48 + k) :: 16 word) = of_nat (48 + m)" using m(1) by simp
  from digit_chars_all m(2)
  have "is_digit (of_nat (48 + m)) \<and> uint (of_nat (48 + m) :: 16 word) = int m + 48 \<and>
        ((of_nat (48 + m) :: 16 word) = 0x30 \<longleftrightarrow> m = 0)"
    by (simp add: list_all_iff)
  with w m(1) show "is_digit (of_int (48 + k))" and "uint (of_int (48 + k) :: 16 word) = k + 48"
    and "(of_int (48 + k) :: 16 word) = 0x30 \<longleftrightarrow> k = 0"
    by simp_all
qed

lemma digit_value_snoc: "digit_value (xs @ [c]) = 10 * digit_value xs + (uint c - 48)"
  by (simp add: digit_value_def)

lemma digits_of_small: "m < 10 \<Longrightarrow> digits_of m = [of_int (48 + m)]"
  by (subst digits_of.simps) simp

lemma digits_of_large: "\<not> m < 10 \<Longrightarrow> digits_of m = digits_of (m div 10) @ [of_int (48 + m mod 10)]"
  by (subst digits_of.simps) simp

lemma digits_of_props:
  "0 \<le> m \<Longrightarrow>
   list_all is_digit (digits_of m) \<and> digits_of m \<noteq> [] \<and> digit_value (digits_of m) = m \<and>
   (0 < m \<longrightarrow> hd (digits_of m) \<noteq> 0x30)"
proof (induction m rule: digits_of.induct)
  case (1 n)
  show ?case
  proof (cases "n < 10")
    case True
    with digit_char[OF "1.prems" True] show ?thesis
      by (simp add: digits_of_small digit_value_def)
  next
    case False
    have k: "0 \<le> n mod 10" "n mod 10 < 10" by simp_all
    from False have pos: "0 < n div 10" by simp
    then have "0 \<le> n div 10" by simp
    from 1(1)[OF False this] pos have ih: "list_all is_digit (digits_of (n div 10))"
      "digits_of (n div 10) \<noteq> []" "digit_value (digits_of (n div 10)) = n div 10"
      "hd (digits_of (n div 10)) \<noteq> 0x30" by simp_all
    have "digit_value (digits_of n) = 10 * (n div 10) + n mod 10"
      using ih(3) digit_char(2)[OF k] by (simp add: digits_of_large[OF False] digit_value_snoc)
    also have "\<dots> = n" by simp
    finally have v: "digit_value (digits_of n) = n" .
    from ih digit_char(1)[OF k] v show ?thesis
      by (simp add: digits_of_large[OF False])
  qed
qed

lemma lex_int_digits_of:
  assumes "0 \<le> m"
  shows "lex_int (digits_of m) = Some (digits_of m, [])"
proof (cases "m = 0")
  case True
  then show ?thesis by (simp add: digits_of_small lex_int_def)
next
  case False
  from digits_of_props[OF assms] False assms obtain c cs where d: "digits_of m = c # cs" "c \<noteq> 0x30"
    "is_digit c" "list_all is_digit cs"
    by (cases "digits_of m") auto
  then have "takeWhile is_digit cs = cs" "dropWhile is_digit cs = []"
    by (simp_all add: takeWhile_eq_all_conv list_all_iff)
  with d show ?thesis by (simp add: lex_int_def)
qed

lemma digits_of_not_minus:
  assumes "0 \<le> m"
  shows "hd (digits_of m) \<noteq> 0x2D"
  using digits_of_props[OF assms] by (cases "digits_of m") (auto simp: is_digit_def)

lemma number_token_digits_of:
  assumes "0 \<le> m"
  shows "number_token (digits_of m)"
proof -
  obtain c cs where d: "digits_of m = c # cs" "c \<noteq> 0x2D"
    using digits_of_props[OF assms] digits_of_not_minus[OF assms] by (cases "digits_of m") auto
  then show ?thesis
    using lex_int_digits_of[OF assms]
    by (simp add: number_token_def lex_number_def lex_frac_def lex_exp_def)
qed

lemma number_token_minus_digits_of:
  assumes "0 \<le> m"
  shows "number_token (0x2D # digits_of m)"
  using lex_int_digits_of[OF assms]
  by (simp add: number_token_def lex_number_def lex_frac_def lex_exp_def)

lemma exact_value_digits_of:
  assumes "0 \<le> m"
  shows "exact_value (digits_of m) = Some m"
proof -
  obtain c cs where d: "digits_of m = c # cs" "c \<noteq> 0x2D"
    using digits_of_props[OF assms] digits_of_not_minus[OF assms] by (cases "digits_of m") auto
  then show ?thesis
    using lex_int_digits_of[OF assms] digits_of_props[OF assms]
    by (simp add: exact_value_def lex_frac_def lex_exp_def exponent_value_def)
qed

lemma exact_value_minus_digits_of:
  assumes "0 \<le> m"
  shows "exact_value (0x2D # digits_of m) = Some (- m)"
  using lex_int_digits_of[OF assms] digits_of_props[OF assms]
  by (simp add: exact_value_def lex_frac_def lex_exp_def exponent_value_def)

lemma integer_text:
  "number_token (number_text (Integer n)) \<and> exact_value (number_text (Integer n)) = Some n"
proof (cases "n < 0")
  case True
  then have "0 \<le> - n" by simp
  from number_token_minus_digits_of[OF this] exact_value_minus_digits_of[OF this] True
  show ?thesis by (simp add: number_text_def)
next
  case False
  then have "0 \<le> n" by simp
  from number_token_digits_of[OF this] exact_value_digits_of[OF this] False
  show ?thesis by (simp add: number_text_def)
qed

lemma not_null_token: "\<not> number_token (str ''null'')"
  by (simp add: number_token_def lex_number_def lex_int_def str_def is_digit_def)

lemma exact_numbers_stable: "number_token lx \<Longrightarrow> text_stable exact_numbers (to_number exact_numbers lx)"
proof -
  assume t: "number_token lx"
  show ?thesis
  proof (cases "exact_number lx")
    case (Integer n)
    then have b: "\<bar>n\<bar> \<le> 2 ^ 53"
      by (auto simp: exact_number_def split: option.splits if_splits)
    from integer_text[of n] b have "exact_number (number_text (Integer n)) = Integer n"
      by (simp add: exact_number_def)
    with integer_text[of n] Integer show ?thesis
      by (simp add: text_stable_def exact_numbers_def)
  next
    case (Beyond l)
    then have "l = lx" by (auto simp: exact_number_def split: option.splits if_splits)
    with Beyond t show ?thesis by (simp add: text_stable_def exact_numbers_def number_text_def)
  qed
qed

subsection \<open>The claims\<close>

text \<open>
  Claim C6: \<open>formatContent\<close> is idempotent, for every text and every MIME type:
  formatting what it returns gives the same text again. What is asked of the platform is
  that its numbers be stable: the decimal text that \<open>JSON.stringify\<close> writes for the value
  of a number token is \<open>null\<close> or a number token whose value has the same text, as the
  shortest round-trip text of a double is.
\<close>

theorem formatContent_idempotent:
  assumes "\<forall>lx. number_token lx \<longrightarrow> text_stable P (to_number P lx)"
  shows "formatContent P (formatContent P text mimeType) mimeType = formatContent P text mimeType"
proof (cases "mimeType = str ''text/plain'' \<and> isValidJson P text")
  case False
  then show ?thesis by (auto simp: formatContent_def)
next
  case True
  then obtain v where v: "JSON_parse (to_number P) text = Some v"
    by (auto simp: isValidJson_def split: option.splits)
  from formatJson_valid[OF v JSON_parse_numbers_stable[OF assms v]] True
  show ?thesis by (simp add: formatContent_def)
qed

theorem formatContent_idempotent_witness:
  "number_token (str ''1e2'') \<and> text_stable exact_numbers (to_number exact_numbers (str ''1e2'')) \<and>
   formatContent exact_numbers (formatContent exact_numbers sample_text (str ''text/plain''))
       (str ''text/plain'')
     = formatContent exact_numbers sample_text (str ''text/plain'') \<and>
   formatContent exact_numbers sample_text (str ''text/plain'') =
     str ''{'' @ [0x0A] @ str ''  \"1\": \"x\",'' @ [0x0A] @ str ''  \"b\": ['' @ [0x0A] @
     str ''    100,'' @ [0x0A] @ str ''    true'' @ [0x0A] @ str ''  ]'' @ [0x0A] @ str ''}''"
proof -
  have law: "\<forall>lx. number_token lx \<longrightarrow> text_stable exact_numbers (to_number exact_numbers lx)"
    using exact_numbers_stable by blast
  then have "formatContent exact_numbers
               (formatContent exact_numbers sample_text (str ''text/plain'')) (str ''text/plain'')
             = formatContent exact_numbers sample_text (str ''text/plain'')"
    by (rule formatContent_idempotent)
  with number_token_1e2 exact_numbers_stable[OF number_token_1e2] sample_format
  show ?thesis by (intro conjI)
qed

text \<open>
  Claim C10: \<open>isValidJson\<close> is true of a string exactly when \<open>JSON.parse\<close> accepts it, and
  \<open>JSON.parse\<close> accepts a bare scalar: \<open>123\<close>, \<open>null\<close>, \<open>true\<close>, \<open>1e2\<close>, and every number
  token. So \<open>formatContent\<close> with \<open>text/plain\<close> writes a number token again, as the text of
  the number it denotes: for \<open>1e2\<close> that is \<open>100\<close>, not the input.
\<close>

theorem isValidJson_accepts_scalars:
  "(isValidJson P s \<longleftrightarrow> JSON_parse (to_number P) s \<noteq> None) \<and>
   isValidJson P (str ''123'') \<and> isValidJson P (str ''null'') \<and>
   isValidJson P (str ''true'') \<and> isValidJson P (str ''1e2'') \<and>
   (number_token lx \<longrightarrow>
      isValidJson P lx \<and> formatContent P lx (str ''text/plain'') = num_text P (to_number P lx)) \<and>
   formatContent exact_numbers (str ''1e2'') (str ''text/plain'') = str ''100''"
proof (intro conjI impI)
  show "isValidJson P s \<longleftrightarrow> JSON_parse (to_number P) s \<noteq> None"
    by (simp add: isValidJson_def split: option.splits)
  show "isValidJson P (str ''123'')" by (rule formatContent_number_token(1)[OF number_token_123])
  show "isValidJson P (str ''null'')" by (simp add: isValidJson_def JSON_parse_null)
  show "isValidJson P (str ''true'')" by (simp add: isValidJson_def JSON_parse_true)
  show "isValidJson P (str ''1e2'')" by (rule formatContent_number_token(1)[OF number_token_1e2])
  show "formatContent exact_numbers (str ''1e2'') (str ''text/plain'') = str ''100''"
    using formatContent_number_token(2)[OF number_token_1e2, of exact_numbers] exact_1e2 by simp
next
  assume "number_token lx"
  then show "isValidJson P lx"
    and "formatContent P lx (str ''text/plain'') = num_text P (to_number P lx)"
    by (rule formatContent_number_token)+
qed

theorem isValidJson_accepts_scalars_witness:
  "number_token (str ''1e2'') \<and> isValidJson exact_numbers (str ''1e2'') \<and>
   formatContent exact_numbers (str ''1e2'') (str ''text/plain'')
     = num_text exact_numbers (to_number exact_numbers (str ''1e2''))"
proof -
  from isValidJson_accepts_scalars[of exact_numbers "[]" "str ''1e2''"]
  have "number_token (str ''1e2'') \<longrightarrow>
      isValidJson exact_numbers (str ''1e2'') \<and>
      formatContent exact_numbers (str ''1e2'') (str ''text/plain'')
        = num_text exact_numbers (to_number exact_numbers (str ''1e2''))"
    by (elim conjE)
  with number_token_1e2 show ?thesis by blast
qed

section \<open>Properties of \<open>copyToClipboard\<close>\<close>

subsection \<open>The three parts\<close>

lemma legacy_copy_throws_iff:
  "fst (legacy_copy ev content isJson pg) \<noteq> None \<longleftrightarrow> legacy_throws ev pg"
proof (cases "body pg")
  case None
  then show ?thesis by (simp add: legacy_copy_def legacy_throws_def Let_def)
next
  case (Some ch)
  then show ?thesis
    by (cases "execCommand ev"; cases isJson)
      (simp_all add: legacy_copy_def legacy_throws_def Let_def exec_copy_def)
qed

lemma modern_copy_pending_iff:
  "modern_copy ev content isJson pg = None \<longleftrightarrow> modern_pending ev isJson"
  by (auto simp: modern_copy_def modern_pending_def awaited_def split: option.splits promise.splits)

lemma last_attempt_result:
  "fst (last_attempt ev content pg) =
     (case last_write ev of
        None \<Rightarrow> Fulfils False
      | Some (Fulfils u) \<Rightarrow> Fulfils True
      | Some (Rejects e) \<Rightarrow> Fulfils False
      | Some Hangs \<Rightarrow> Hangs)"
  by (simp add: last_attempt_def last_write_def split: option.splits promise.splits)

text \<open>The returned promise, in terms of what the platform answers.\<close>

lemma copyToClipboard_result:
  "fst (copyToClipboard ev content isJson pg) =
     (if legacy_throws ev pg
      then (case last_write ev of
              None \<Rightarrow> Fulfils False
            | Some (Fulfils u) \<Rightarrow> Fulfils True
            | Some (Rejects e) \<Rightarrow> Fulfils False
            | Some Hangs \<Rightarrow> Hangs)
      else if modern_pending ev isJson then Hangs else Fulfils True)"
proof -
  obtain r pg1 where l: "legacy_copy ev content isJson pg = (r, pg1)"
    by (cases "legacy_copy ev content isJson pg")
  show ?thesis
  proof (cases r)
    case None
    with l legacy_copy_throws_iff[of ev content isJson pg] have nt: "\<not> legacy_throws ev pg" by simp
    show ?thesis
    proof (cases "modern_copy ev content isJson pg1")
      case n: None
      with modern_copy_pending_iff have "modern_pending ev isJson" by blast
      with nt l None n show ?thesis by (simp add: copyToClipboard_def)
    next
      case (Some pg2)
      with modern_copy_pending_iff[of ev content isJson pg1] have "\<not> modern_pending ev isJson" by simp
      with nt l None Some show ?thesis by (simp add: copyToClipboard_def)
    qed
  next
    case (Some e)
    with l legacy_copy_throws_iff[of ev content isJson pg] have "legacy_throws ev pg" by simp
    with l Some show ?thesis by (simp add: copyToClipboard_def last_attempt_result)
  qed
qed

text \<open>
  A legacy path that runs to its end leaves the children of the body and the listeners
  of the document as they were; the focus is not given back.
\<close>

lemma removeAll_appended: "x \<notin> set xs \<Longrightarrow> removeAll x (xs @ [x]) = xs"
  by (induction xs) auto

lemma legacy_copy_cleans_up:
  assumes "page_ok pg" and "\<not> legacy_throws ev pg"
  shows "body (snd (legacy_copy ev content isJson pg)) = body pg \<and>
         copy_listeners (snd (legacy_copy ev content isJson pg)) = copy_listeners pg \<and>
         active (snd (legacy_copy ev content isJson pg)) = None"
proof -
  from assms(2) obtain ch where ch: "body pg = Some ch" by (auto simp: legacy_throws_def)
  have n: "TextArea (fresh pg) (to_string content) \<notin> set ch"
    using assms(1) ch by (force simp: page_ok_def list_all_iff)
  have l: "CopyHandler (Suc (fresh pg)) (to_string content) \<notin> set (copy_listeners pg)"
    using assms(1) by (force simp: page_ok_def list_all_iff)
  from assms(2) have "execCommand ev = ExecTrue \<or> execCommand ev = ExecFalse"
    by (cases "execCommand ev") (simp_all add: legacy_throws_def)
  then show ?thesis
  proof
    assume "execCommand ev = ExecTrue"
    with ch n l show ?thesis
      by (cases isJson)
        (simp_all add: legacy_copy_def Let_def exec_copy_def dispatch_copy_def removeAll_appended
          split: option.splits)
  next
    assume "execCommand ev = ExecFalse"
    with ch n l show ?thesis
      by (cases isJson) (simp_all add: legacy_copy_def Let_def exec_copy_def removeAll_appended)
  qed
qed

subsection \<open>Evaluation on the concrete platforms\<close>

lemma refusing_env_copy:
  "fst (copyToClipboard refusing_env (Text (str ''hello'')) False blank_page) = Fulfils True"
  by (simp add: copyToClipboard_def legacy_copy_def modern_copy_def awaited_def exec_copy_def
      refusing_env_def blank_page_def Let_def)

text \<open>
  What the copy command leaves on the clipboard: for plain content the selection, with
  its line breaks normalised; for structured content what the handler set.
\<close>

lemma legacy_env_copy_plain:
  "clipboard (snd (copyToClipboard legacy_env (Text [0x61, 0x0D, 0x0A, 0x62, 0x0D]) False blank_page)) =
     [(str ''text/plain'', [0x61, 0x0A, 0x62, 0x0A])]"
  by (simp add: copyToClipboard_def legacy_copy_def modern_copy_def exec_copy_def
      dispatch_copy_def legacy_env_def blank_page_def Let_def)

lemma legacy_env_copy_structured:
  "clipboard (snd (copyToClipboard legacy_env (Text [0x7B, 0x0D, 0x0A, 0x7D]) True blank_page)) =
     [(str ''application/json'', [0x7B, 0x0D, 0x0A, 0x7D]),
      (str ''text/plain'', [0x7B, 0x0D, 0x0A, 0x7D])]"
  by (simp add: copyToClipboard_def legacy_copy_def modern_copy_def exec_copy_def
      dispatch_copy_def legacy_env_def blank_page_def Let_def str_def)

lemma legacy_env_not_throwing: "\<not> legacy_throws legacy_env blank_page"
  by (simp add: legacy_throws_def legacy_env_def blank_page_def)

subsection \<open>The claims about \<open>copyToClipboard\<close>\<close>

text \<open>
  Claim C3, as stated: \<open>copyToClipboard\<close> returns \<open>true\<close> if and only if one of its write
  strategies reported success, and \<open>false\<close> when every strategy fails. It does not hold
  where the copy command returns \<open>false\<close> and both asynchronous writes reject: no
  strategy succeeded, and the function returns \<open>true\<close>.
\<close>

theorem copyToClipboard_true_though_every_write_failed:
  "execCommand refusing_env = ExecFalse \<and>
   navigator_clipboard refusing_env =
     Some \<lparr>clipboard_write = Some (Rejects (Error ''NotAllowedError'')),
           clipboard_writeText = Some (Rejects (Error ''NotAllowedError''))\<rparr> \<and>
   fst (copyToClipboard refusing_env (Text (str ''hello'')) False blank_page) = Fulfils True"
  using refusing_env_copy by (simp add: refusing_env_def)

text \<open>
  Claim C3, amended: for every string content and either flag, \<open>copyToClipboard\<close> returns
  \<open>true\<close> exactly when the legacy path runs to its end without throwing, whatever the
  copy command returned and whether or not the modern write failed (and provided the
  awaited modern write settles), or when, the legacy path having thrown, the last
  \<open>writeText\<close> fulfils. It returns \<open>false\<close> exactly when the legacy path throws and the last
  \<open>writeText\<close> cannot be called or rejects. In particular it returns \<open>true\<close> whenever the
  legacy path does not throw and the asynchronous API is absent.
\<close>

theorem copyToClipboard_returns:
  "(fst (copyToClipboard ev (Text s) isJson pg) = Fulfils True \<longleftrightarrow>
      (if legacy_throws ev pg then last_write ev = Some (Fulfils ())
       else \<not> modern_pending ev isJson)) \<and>
   (fst (copyToClipboard ev (Text s) isJson pg) = Fulfils False \<longleftrightarrow>
      legacy_throws ev pg \<and> (case last_write ev of None \<Rightarrow> True | Some p \<Rightarrow> rejected p)) \<and>
   (\<not> legacy_throws ev pg \<and> navigator_clipboard ev = None \<longrightarrow>
      fst (copyToClipboard ev (Text s) isJson pg) = Fulfils True)"
proof (intro conjI)
  show "fst (copyToClipboard ev (Text s) isJson pg) = Fulfils True \<longleftrightarrow>
      (if legacy_throws ev pg then last_write ev = Some (Fulfils ())
       else \<not> modern_pending ev isJson)"
    by (simp add: copyToClipboard_result split: option.splits promise.splits)
  show "fst (copyToClipboard ev (Text s) isJson pg) = Fulfils False \<longleftrightarrow>
      legacy_throws ev pg \<and> (case last_write ev of None \<Rightarrow> True | Some p \<Rightarrow> rejected p)"
    by (simp add: copyToClipboard_result split: option.splits promise.splits)
  show "\<not> legacy_throws ev pg \<and> navigator_clipboard ev = None \<longrightarrow>
      fst (copyToClipboard ev (Text s) isJson pg) = Fulfils True"
    by (simp add: copyToClipboard_result modern_pending_def)
qed

theorem copyToClipboard_returns_witness:
  "\<not> legacy_throws legacy_env blank_page \<and> navigator_clipboard legacy_env = None \<and>
   fst (copyToClipboard legacy_env (Text (str ''hello'')) False blank_page) = Fulfils True"
proof -
  have a: "\<not> legacy_throws legacy_env blank_page \<and> navigator_clipboard legacy_env = None"
    using legacy_env_not_throwing by (simp add: legacy_env_def)
  from copyToClipboard_returns[of legacy_env "str ''hello''" False blank_page]
  have "\<not> legacy_throws legacy_env blank_page \<and> navigator_clipboard legacy_env = None \<longrightarrow>
      fst (copyToClipboard legacy_env (Text (str ''hello'')) False blank_page) = Fulfils True"
    by (rule conjunct2[THEN conjunct2])
  with a show ?thesis by blast
qed

text \<open>
  Claim C8: the off-screen text area and, for structured content, the transient \<open>copy\<close>
  handler are removed again after the copy attempt also when the copy command throws.
  The code removes them on the lines that follow the command, outside any \<open>finally\<close>:
  when the command throws, control passes to the \<open>catch\<close> block, and both stay. On a
  blank page, with a copy command that throws, the text area is still a child of the body
  and the handler is still registered when the function returns.
\<close>

theorem copyToClipboard_leaves_buffer_and_handler_when_copy_throws:
  "copyToClipboard throwing_env (Text (str ''hello'')) True blank_page =
     (Fulfils False,
      \<lparr>body = Some [TextArea 0 (str ''hello'')],
       copy_listeners = [CopyHandler 1 (str ''hello'')],
       active = Some (TextArea 0 (str ''hello'')), clipboard = [], fresh = 2\<rparr>)"
  by (simp add: copyToClipboard_def legacy_copy_def last_attempt_def exec_copy_def
      throwing_env_def blank_page_def Let_def)

subsection \<open>The claim about the refusal of a payload that is not a string\<close>





end
